theory Spec2Isabelle
  imports Main "HOL-Library.Word" "HOL-Library.Multiset"
begin

section \<open>The clock replacer (src/buffer/clock_replacer.cpp)\<close>

text \<open>
  Modelled from the spec: the struct \<open>Meta\<close>, declared in a header outside the source
  files at hand. Every entry of \<open>frames_\<close> is a \<open>Meta\<close> pair, built by the constructor as
  \<open>{true, false}\<close>: the pinned bit first, the reference bit second. The fields
  \<open>frames_\<close>, \<open>clock_hand_\<close> and \<open>clock_size_\<close> keep their names without the trailing
  underscore. The mutex is not modelled: every call runs under the lock from start to end.
\<close>

record Meta =
  pin :: bool
  ref :: bool

record ClockReplacer =
  frames :: "Meta list"
  clock_hand :: nat
  clock_size :: nat

text \<open>
  \<open>clock_hand_\<close> and \<open>clock_size_\<close> are \<open>size_t\<close> (64 bits): \<open>++\<close> and \<open>--\<close> wrap
  modulo \<open>2 ^ 64\<close>. \<open>frame_id_t\<close> is a signed 32-bit integer: \<open>static_cast<size_t>\<close> of a
  negative frame id is a huge index, and the hand is narrowed when it is stored in \<open>*frame_id\<close>.
\<close>

definition SIZE_MOD :: nat where
  "SIZE_MOD = 2 ^ 64"

definition size_inc :: "nat \<Rightarrow> nat" where
  "size_inc x = (x + 1) mod SIZE_MOD"

definition size_dec :: "nat \<Rightarrow> nat" where
  "size_dec x = (x + (SIZE_MOD - 1)) mod SIZE_MOD"

definition size_of_frame_id :: "int \<Rightarrow> nat" where
  "size_of_frame_id f = nat (f mod 2 ^ 64)"

definition frame_id_of_size :: "nat \<Rightarrow> int" where
  "frame_id_of_size h = sint (word_of_nat h :: 32 word)"

definition ClockReplacer_ctor :: "nat \<Rightarrow> ClockReplacer" where
  "ClockReplacer_ctor num_pages =
     \<lparr>frames = replicate num_pages \<lparr>pin = True, ref = False\<rparr>, clock_hand = 0, clock_size = 0\<rparr>"

text \<open>
  \<open>Victim\<close> is a \<open>while\<close> loop that the source leaves only by finding an unpinned entry
  whose reference bit is clear, or by \<open>clock_size_ = 0\<close>. The value \<open>None\<close> of the model is
  a call that does not return: the loop runs forever, or \<open>clock_hand_ %= frames_.size()\<close>
  divides by zero. \<open>Some (Some f, r')\<close> is \<open>true\<close> with \<open>*frame_id = f\<close>, and
  \<open>Some (None, r')\<close> is \<open>false\<close>.
\<close>

partial_function (option) Victim :: "ClockReplacer \<Rightarrow> (int option \<times> ClockReplacer) option" where
  "Victim r =
     (if clock_size r > 0 then
        (if length (frames r) = 0 then None
         else if pin (frames r ! (clock_hand r mod length (frames r))) then
           Victim (r\<lparr>clock_hand := size_inc (clock_hand r mod length (frames r))\<rparr>)
         else if ref (frames r ! (clock_hand r mod length (frames r))) then
           Victim (r\<lparr>frames := (frames r)[clock_hand r mod length (frames r) :=
                        (frames r ! (clock_hand r mod length (frames r)))\<lparr>ref := False\<rparr>],
                      clock_hand := size_inc (clock_hand r mod length (frames r))\<rparr>)
         else
           Some (Some (frame_id_of_size (clock_hand r mod length (frames r))),
                 r\<lparr>frames := (frames r)[clock_hand r mod length (frames r) :=
                        (frames r ! (clock_hand r mod length (frames r)))\<lparr>pin := True\<rparr>],
                   clock_size := size_dec (clock_size r),
                   clock_hand := size_inc (clock_hand r mod length (frames r))\<rparr>))
      else Some (None, r))"

definition Pin :: "ClockReplacer \<Rightarrow> int \<Rightarrow> ClockReplacer" where
  "Pin r frame_id =
     (if size_of_frame_id frame_id \<ge> length (frames r) then r
      else if \<not> pin (frames r ! size_of_frame_id frame_id) then
        r\<lparr>frames := (frames r)[size_of_frame_id frame_id :=
               (frames r ! size_of_frame_id frame_id)\<lparr>pin := True\<rparr>],
          clock_size := size_dec (clock_size r)\<rparr>
      else r)"

definition Unpin :: "ClockReplacer \<Rightarrow> int \<Rightarrow> ClockReplacer" where
  "Unpin r frame_id =
     (if size_of_frame_id frame_id \<ge> length (frames r) then r
      else (if pin (frames r ! size_of_frame_id frame_id)
            then r\<lparr>clock_size := size_inc (clock_size r)\<rparr> else r)
           \<lparr>frames := (frames r)[size_of_frame_id frame_id :=
               (frames r ! size_of_frame_id frame_id)\<lparr>pin := False, ref := True\<rparr>]\<rparr>)"

definition Size :: "ClockReplacer \<Rightarrow> nat" where
  "Size r = clock_size r"

text \<open>A sequence of calls on one replacer, threaded through the state.\<close>

datatype replacer_call = CallPin int | CallUnpin int | CallVictim

fun replacer_call_step :: "ClockReplacer \<Rightarrow> replacer_call \<Rightarrow> ClockReplacer option" where
  "replacer_call_step r (CallPin f) = Some (Pin r f)"
| "replacer_call_step r (CallUnpin f) = Some (Unpin r f)"
| "replacer_call_step r CallVictim = map_option snd (Victim r)"

fun replacer_calls :: "ClockReplacer \<Rightarrow> replacer_call list \<Rightarrow> ClockReplacer option" where
  "replacer_calls r [] = Some r"
| "replacer_calls r (c # cs) =
     (case replacer_call_step r c of None \<Rightarrow> None | Some r' \<Rightarrow> replacer_calls r' cs)"

text \<open>The number of entries whose pinned bit is false, and the invariant of the counter.\<close>

definition unpinned_count :: "ClockReplacer \<Rightarrow> nat" where
  "unpinned_count r = length (filter (\<lambda>m. \<not> pin m) (frames r))"

definition replacer_inv :: "ClockReplacer \<Rightarrow> bool" where
  "replacer_inv r \<longleftrightarrow> clock_size r = unpinned_count r \<and> length (frames r) < SIZE_MOD"

text \<open>Unpinned entries with the reference bit set: each sweep of the hand clears one.\<close>

definition referenced_count :: "ClockReplacer \<Rightarrow> nat" where
  "referenced_count r = length (filter (\<lambda>m. \<not> pin m \<and> ref m) (frames r))"

section \<open>The buffer pool manager (src/buffer/buffer_pool_manager.cpp)\<close>

text \<open>
  Modelled from the spec: the types \<open>page_id_t\<close> and \<open>frame_id_t\<close> (signed 32-bit integers),
  the constants \<open>PAGE_SIZE\<close> and \<open>INVALID_PAGE_ID\<close>, and the class \<open>Page\<close> (a page image
  of \<open>PAGE_SIZE\<close> bytes with the resident page id, the pin count and the dirty flag; a new
  \<open>Page\<close> is zeroed, holds \<open>INVALID_PAGE_ID\<close>, and is neither pinned nor dirty). Their
  declarations are in headers outside the source files at hand. The pin count is an unbounded
  integer here: the source's \<open>int\<close> would overflow only after \<open>2 ^ 31\<close> fetches without an unpin.
  The page latch is not modelled.
\<close>

type_synonym page_id_t = int
type_synonym frame_id_t = int
type_synonym page_bytes = "8 word list"

definition PAGE_SIZE :: nat where
  "PAGE_SIZE = 4096"

definition INVALID_PAGE_ID :: page_id_t where
  "INVALID_PAGE_ID = - 1"

record Page =
  data :: page_bytes
  page_id :: page_id_t
  pin_count :: int
  is_dirty :: bool

definition ResetMemory :: "Page \<Rightarrow> Page" where
  "ResetMemory p = p\<lparr>data := replicate PAGE_SIZE 0\<rparr>"

definition Page_ctor :: Page where
  "Page_ctor = \<lparr>data = replicate PAGE_SIZE 0, page_id = INVALID_PAGE_ID, pin_count = 0, is_dirty = False\<rparr>"

definition GetPinCount :: "Page \<Rightarrow> int" where
  "GetPinCount p = pin_count p"

text \<open>
  Modelled from the spec: the disk manager, an external collaborator known by its interface
  only. \<open>ReadPage\<close> fills the buffer with the page's bytes, \<open>WritePage\<close> persists the buffer
  as the page's bytes, \<open>AllocatePage\<close> reserves and returns a fresh page id (a counter),
  \<open>DeallocatePage\<close> releases a page id. Every call is recorded in \<open>disk_calls\<close>, oldest
  first, so that a theorem can say which calls a pool operation has made.
\<close>

datatype disk_call = CallWritePage page_id_t page_bytes | CallReadPage page_id_t
  | CallAllocatePage | CallDeallocatePage page_id_t

record DiskManager =
  stored :: "page_id_t \<Rightarrow> page_bytes"
  next_page_id :: page_id_t
  disk_calls :: "disk_call list"

definition WritePage :: "DiskManager \<Rightarrow> page_id_t \<Rightarrow> page_bytes \<Rightarrow> DiskManager" where
  "WritePage d p bytes = d\<lparr>stored := (stored d)(p := bytes), disk_calls := disk_calls d @ [CallWritePage p bytes]\<rparr>"

definition ReadPage :: "DiskManager \<Rightarrow> page_id_t \<Rightarrow> page_bytes \<times> DiskManager" where
  "ReadPage d p = (stored d p, d\<lparr>disk_calls := disk_calls d @ [CallReadPage p]\<rparr>)"

definition AllocatePage :: "DiskManager \<Rightarrow> page_id_t \<times> DiskManager" where
  "AllocatePage d = (next_page_id d, d\<lparr>next_page_id := next_page_id d + 1, disk_calls := disk_calls d @ [CallAllocatePage]\<rparr>)"

definition DeallocatePage :: "DiskManager \<Rightarrow> page_id_t \<Rightarrow> DiskManager" where
  "DeallocatePage d p = d\<lparr>disk_calls := disk_calls d @ [CallDeallocatePage p]\<rparr>"

text \<open>
  The pool: \<open>pages_\<close> (an array of \<open>pool_size_\<close> frames), the replacer, the free list
  (\<open>std::list\<close>, front first) and the page table (\<open>std::unordered_map\<close>). A \<open>Page *\<close> that
  the source returns is the frame id of that page here, and \<open>nullptr\<close> is \<open>None\<close>. The pool
  latch is not modelled: every call runs under it from start to end.
\<close>

record BufferPoolManager =
  pool_size :: nat
  pages :: "Page list"
  replacer :: ClockReplacer
  free_list :: "frame_id_t list"
  page_table :: "page_id_t \<rightharpoonup> frame_id_t"
  disk_manager :: DiskManager

definition BufferPoolManager_ctor :: "nat \<Rightarrow> DiskManager \<Rightarrow> BufferPoolManager" where
  "BufferPoolManager_ctor n d =
     \<lparr>pool_size = n, pages = replicate n Page_ctor, replacer = ClockReplacer_ctor n,
      free_list = map frame_id_of_size [0..<n], page_table = Map.empty, disk_manager = d\<rparr>"

text \<open>
  \<open>pages_ + frame_id\<close> and \<open>pages_[frame_id]\<close>. The source never checks the index; the frame
  ids it uses come from the free list, the replacer and the page table.
\<close>

definition page_at :: "BufferPoolManager \<Rightarrow> frame_id_t \<Rightarrow> Page" where
  "page_at b f = pages b ! nat f"

definition set_page :: "BufferPoolManager \<Rightarrow> frame_id_t \<Rightarrow> Page \<Rightarrow> BufferPoolManager" where
  "set_page b f p = b\<lparr>pages := (pages b)[nat f := p]\<rparr>"

text \<open>
  The victim branch shared by \<open>FetchPageImpl\<close> (lines 60 to 66) and \<open>NewPageImpl\<close> (lines
  122 to 128): write the page back if it is dirty, then reset image, dirty flag and pin count.
  The page table is not touched.
\<close>

definition write_back_and_reset :: "BufferPoolManager \<Rightarrow> frame_id_t \<Rightarrow> BufferPoolManager" where
  "write_back_and_reset b f =
     (let b1 = (if is_dirty (page_at b f)
                then b\<lparr>disk_manager := WritePage (disk_manager b) (page_id (page_at b f)) (data (page_at b f))\<rparr>
                else b)
      in set_page b1 f ((ResetMemory (page_at b1 f))\<lparr>is_dirty := False, pin_count := 0\<rparr>))"

text \<open>
  The tail of \<open>FetchPageImpl\<close> (lines 70 to 75). \<open>replacer_->Pin\<close> is called with
  \<open>page_id\<close>.
\<close>

definition fetch_into_frame :: "BufferPoolManager \<Rightarrow> frame_id_t \<Rightarrow> page_id_t \<Rightarrow> BufferPoolManager" where
  "fetch_into_frame b f p =
     (let b1 = set_page b f ((page_at b f)\<lparr>page_id := p\<rparr>);
          (bytes, d) = ReadPage (disk_manager b1) p;
          b2 = (set_page b1 f ((page_at b1 f)\<lparr>data := bytes\<rparr>))\<lparr>disk_manager := d\<rparr>;
          b3 = set_page b2 f ((page_at b2 f)\<lparr>pin_count := pin_count (page_at b2 f) + 1\<rparr>);
          b4 = b3\<lparr>replacer := Pin (replacer b3) p\<rparr>
      in b4\<lparr>page_table := (page_table b4)(p \<mapsto> f)\<rparr>)"

text \<open>
  \<open>FetchPageImpl\<close> and \<open>NewPageImpl\<close> call \<open>Victim\<close>; they return \<open>None\<close> when that call does
  not return.
\<close>

definition FetchPageImpl :: "BufferPoolManager \<Rightarrow> page_id_t \<Rightarrow> (frame_id_t option \<times> BufferPoolManager) option" where
  "FetchPageImpl b p =
     (case page_table b p of
        Some f \<Rightarrow>
          Some (Some f,
                (set_page b f ((page_at b f)\<lparr>pin_count := pin_count (page_at b f) + 1\<rparr>))
                  \<lparr>replacer := Pin (replacer b) f\<rparr>)
      | None \<Rightarrow>
          (case free_list b of
             f # rest \<Rightarrow>
               Some (Some f, fetch_into_frame (b\<lparr>replacer := Unpin (replacer b) f, free_list := rest\<rparr>) f p)
           | [] \<Rightarrow>
               (case Victim (replacer b) of
                  None \<Rightarrow> None
                | Some (Some f, r) \<Rightarrow>
                    Some (Some f, fetch_into_frame (write_back_and_reset (b\<lparr>replacer := r\<rparr>) f) f p)
                | Some (None, r) \<Rightarrow> Some (None, b\<lparr>replacer := r\<rparr>))))"

definition UnpinPageImpl :: "BufferPoolManager \<Rightarrow> page_id_t \<Rightarrow> bool \<Rightarrow> bool \<times> BufferPoolManager" where
  "UnpinPageImpl b p dirty =
     (case page_table b p of
        None \<Rightarrow> (False, b)
      | Some f \<Rightarrow>
          if GetPinCount (page_at b f) > 0 then
            (let b1 = set_page b f ((page_at b f)\<lparr>is_dirty := (is_dirty (page_at b f) \<or> dirty)\<rparr>);
                 b2 = set_page b1 f ((page_at b1 f)\<lparr>pin_count := pin_count (page_at b1 f) - 1\<rparr>)
             in if pin_count (page_at b2 f) = 0
                then (True, b2\<lparr>replacer := Unpin (replacer b2) f\<rparr>)
                else (True, b2))
          else (True, b))"

definition FlushPageImpl :: "BufferPoolManager \<Rightarrow> page_id_t \<Rightarrow> bool \<times> BufferPoolManager" where
  "FlushPageImpl b p =
     (case page_table b p of
        Some f \<Rightarrow>
          if is_dirty (page_at b f) then
            (True, (set_page b f ((page_at b f)\<lparr>is_dirty := False\<rparr>))
                     \<lparr>disk_manager := WritePage (disk_manager b) p (data (page_at b f))\<rparr>)
          else (True, b)
      | None \<Rightarrow> (False, b))"

text \<open>
  The tail of \<open>NewPageImpl\<close> (lines 132 to 137). \<open>replacer_->Pin\<close> is called with
  \<open>*page_id\<close>. The result of \<open>NewPageImpl\<close> is the frame together with the new page id.
\<close>

definition new_into_frame :: "BufferPoolManager \<Rightarrow> frame_id_t \<Rightarrow> page_id_t \<times> BufferPoolManager" where
  "new_into_frame b f =
     (let (p, d) = AllocatePage (disk_manager b);
          b1 = b\<lparr>disk_manager := d\<rparr>;
          b2 = set_page b1 f ((page_at b1 f)\<lparr>page_id := p\<rparr>);
          b3 = b2\<lparr>page_table := (page_table b2)(p \<mapsto> f)\<rparr>;
          b4 = set_page b3 f ((page_at b3 f)\<lparr>pin_count := pin_count (page_at b3 f) + 1\<rparr>)
      in (p, b4\<lparr>replacer := Pin (replacer b4) p\<rparr>))"

definition NewPageImpl :: "BufferPoolManager \<Rightarrow> ((frame_id_t \<times> page_id_t) option \<times> BufferPoolManager) option" where
  "NewPageImpl b =
     (case free_list b of
        f # rest \<Rightarrow>
          (let (p, b') = new_into_frame (b\<lparr>replacer := Unpin (replacer b) f, free_list := rest\<rparr>) f
           in Some (Some (f, p), b'))
      | [] \<Rightarrow>
          (case Victim (replacer b) of
             None \<Rightarrow> None
           | Some (Some f, r) \<Rightarrow>
               (let (p, b') = new_into_frame (write_back_and_reset (b\<lparr>replacer := r\<rparr>) f) f
                in Some (Some (f, p), b'))
           | Some (None, r) \<Rightarrow> Some (None, b\<lparr>replacer := r\<rparr>)))"

definition DeletePageImpl :: "BufferPoolManager \<Rightarrow> page_id_t \<Rightarrow> bool \<times> BufferPoolManager" where
  "DeletePageImpl b p =
     (case page_table b p of
        Some f \<Rightarrow>
          if GetPinCount (page_at b f) > 0 then (False, b)
          else
            (let b1 = b\<lparr>page_table := (page_table b)(p := None)\<rparr>;
                 b2 = b1\<lparr>disk_manager := DeallocatePage (disk_manager b1) p\<rparr>
             in (True, set_page b2 f ((ResetMemory (page_at b2 f))
                         \<lparr>is_dirty := False, pin_count := 0, page_id := INVALID_PAGE_ID\<rparr>)))
      | None \<Rightarrow> (True, b))"

fun flush_frames :: "Page list \<Rightarrow> DiskManager \<Rightarrow> Page list \<times> DiskManager" where
  "flush_frames [] d = ([], d)"
| "flush_frames (p # ps) d =
     (if page_id p \<noteq> INVALID_PAGE_ID \<and> is_dirty p
      then (let (ps', d') = flush_frames ps (WritePage d (page_id p) (data p))
            in (p\<lparr>is_dirty := False\<rparr> # ps', d'))
      else (let (ps', d') = flush_frames ps d in (p # ps', d')))"

definition FlushAllPagesImpl :: "BufferPoolManager \<Rightarrow> BufferPoolManager" where
  "FlushAllPagesImpl b =
     (let (ps, d) = flush_frames (take (pool_size b) (pages b)) (disk_manager b)
      in b\<lparr>pages := ps @ drop (pool_size b) (pages b), disk_manager := d\<rparr>)"

text \<open>A sequence of calls on one pool, results dropped, state threaded through.\<close>

datatype pool_call = CallFetchPage page_id_t | CallUnpinPage page_id_t bool | CallFlushPage page_id_t
  | CallNewPage | CallDeletePage page_id_t | CallFlushAllPages

fun pool_call_step :: "BufferPoolManager \<Rightarrow> pool_call \<Rightarrow> BufferPoolManager option" where
  "pool_call_step b (CallFetchPage p) = map_option snd (FetchPageImpl b p)"
| "pool_call_step b (CallUnpinPage p dirty) = Some (snd (UnpinPageImpl b p dirty))"
| "pool_call_step b (CallFlushPage p) = Some (snd (FlushPageImpl b p))"
| "pool_call_step b CallNewPage = map_option snd (NewPageImpl b)"
| "pool_call_step b (CallDeletePage p) = Some (snd (DeletePageImpl b p))"
| "pool_call_step b CallFlushAllPages = Some (FlushAllPagesImpl b)"

fun pool_calls :: "BufferPoolManager \<Rightarrow> pool_call list \<Rightarrow> BufferPoolManager option" where
  "pool_calls b [] = Some b"
| "pool_calls b (c # cs) =
     (case pool_call_step b c of None \<Rightarrow> None | Some b' \<Rightarrow> pool_calls b' cs)"

text \<open>A fresh disk: every page reads as zeros, page ids are handed out from 0.\<close>

definition DiskManager_ctor :: DiskManager where
  "DiskManager_ctor = \<lparr>stored = (\<lambda>_. replicate PAGE_SIZE 0), next_page_id = 0, disk_calls = []\<rparr>"

section \<open>The linear probe hash table (src/container/hash/linear_probe_hash_table.cpp)\<close>

text \<open>
  The instance \<open>LinearProbeHashTable<int, int, IntComparator>\<close>: keys and values are
  integers and the comparator returns 0 on equal keys.

  The table is modelled over a page store that keeps its contract: \<open>FetchPage\<close> of a block
  page id yields that block page, \<open>NewPage\<close> yields a zeroed page, and what is written to a
  page stays. Latches, pins and page ids are not modelled.

  Modelled from the spec: \<open>HashTableHeaderPage\<close>, whose member functions are outside the
  source files at hand: an append-only array of block page ids, with \<open>NumBlocks\<close> its
  length. Over the page store above, the header is the list of its block pages in the order
  of that array.

  \<open>BLOCK_ARRAY_SIZE\<close> is a macro defined outside the source files at hand; it is the
  parameter \<open>B\<close> of every function below.

  Modelled from the spec: \<open>HashTableBlockPage\<close>, whose member functions are outside the
  source files at hand. A block page has \<open>BLOCK_ARRAY_SIZE\<close> slots, each with an
  \<open>occupied\<close> bit (ever written), a \<open>readable\<close> bit (holds a live entry), a key and a value;
  a tombstone is \<open>occupied\<close> and not \<open>readable\<close>. \<open>Insert\<close> claims the slot (sets both bits
  and writes key and value) iff the slot is currently not readable; \<open>Remove\<close> clears the
  \<open>readable\<close> bit and leaves \<open>occupied\<close> set.
\<close>

record slot =
  occupied :: bool
  readable :: bool
  key :: int
  val :: int

type_synonym block_page = "slot list"

definition empty_slot :: slot where
  "empty_slot = \<lparr>occupied = False, readable = False, key = 0, val = 0\<rparr>"

definition IsOccupied :: "block_page \<Rightarrow> nat \<Rightarrow> bool" where
  "IsOccupied bucket offset = occupied (bucket ! offset)"

definition IsReadable :: "block_page \<Rightarrow> nat \<Rightarrow> bool" where
  "IsReadable bucket offset = readable (bucket ! offset)"

definition KeyAt :: "block_page \<Rightarrow> nat \<Rightarrow> int" where
  "KeyAt bucket offset = key (bucket ! offset)"

definition ValueAt :: "block_page \<Rightarrow> nat \<Rightarrow> int" where
  "ValueAt bucket offset = val (bucket ! offset)"

definition BlockInsert :: "block_page \<Rightarrow> nat \<Rightarrow> int \<Rightarrow> int \<Rightarrow> bool \<times> block_page" where
  "BlockInsert bucket offset k v =
     (if readable (bucket ! offset) then (False, bucket)
      else (True, bucket[offset := \<lparr>occupied = True, readable = True, key = k, val = v\<rparr>]))"

definition BlockRemove :: "block_page \<Rightarrow> nat \<Rightarrow> block_page" where
  "BlockRemove bucket offset = bucket[offset := (bucket ! offset)\<lparr>readable := False\<rparr>]"

record LinearProbeHashTable =
  hash_fn :: "int \<Rightarrow> nat"
  blocks :: "block_page list"

text \<open>The constructor: \<open>num_buckets\<close> new block pages, all slots never written.\<close>

definition LinearProbeHashTable_ctor :: "nat \<Rightarrow> nat \<Rightarrow> (int \<Rightarrow> nat) \<Rightarrow> LinearProbeHashTable" where
  "LinearProbeHashTable_ctor B num_buckets h =
     \<lparr>hash_fn = h, blocks = replicate num_buckets (replicate B empty_slot)\<rparr>"

definition NumBlocks :: "LinearProbeHashTable \<Rightarrow> nat" where
  "NumBlocks t = length (blocks t)"

text \<open>
  The probe loops. Each is a \<open>while\<close> loop over \<open>(block_ind, offset)\<close>; \<open>None\<close> is a call
  that does not return (the loop runs forever, or \<open>NumBlocks() * BLOCK_ARRAY_SIZE\<close> is 0 and
  the modulo divides by zero). In each loop, \<open>offset++\<close> comes first, then the test
  \<open>block_ind * BLOCK_ARRAY_SIZE + offset == hash_val\<close> ("one circle"), then the step to the
  next block when \<open>offset >= BLOCK_ARRAY_SIZE\<close>.
\<close>

partial_function (option) GetValue_probe ::
  "nat \<Rightarrow> block_page list \<Rightarrow> int \<Rightarrow> nat \<Rightarrow> nat \<Rightarrow> nat \<Rightarrow> int list \<Rightarrow> int list option" where
  "GetValue_probe B bs k hash_val block_ind offset result =
     (if IsOccupied (bs ! block_ind) offset then
        (if block_ind * B + (offset + 1) = hash_val then
           Some (if IsReadable (bs ! block_ind) offset \<and> KeyAt (bs ! block_ind) offset = k
                 then result @ [ValueAt (bs ! block_ind) offset] else result)
         else if offset + 1 \<ge> B then
           GetValue_probe B bs k hash_val ((block_ind + 1) mod length bs) 0
             (if IsReadable (bs ! block_ind) offset \<and> KeyAt (bs ! block_ind) offset = k
              then result @ [ValueAt (bs ! block_ind) offset] else result)
         else
           GetValue_probe B bs k hash_val block_ind (offset + 1)
             (if IsReadable (bs ! block_ind) offset \<and> KeyAt (bs ! block_ind) offset = k
              then result @ [ValueAt (bs ! block_ind) offset] else result))
      else Some result)"

definition GetValue :: "nat \<Rightarrow> LinearProbeHashTable \<Rightarrow> int \<Rightarrow> int list \<Rightarrow> (bool \<times> int list) option" where
  "GetValue B t k result =
     (if NumBlocks t * B = 0 then None
      else map_option (\<lambda>res. (res \<noteq> [], res))
             (GetValue_probe B (blocks t) k (hash_fn t k mod (NumBlocks t * B))
                (hash_fn t k mod (NumBlocks t * B) div B) (hash_fn t k mod (NumBlocks t * B) mod B) result))"

text \<open>
  \<open>InternalInsert\<close> returns \<open>true\<close> (\<open>Inserted\<close>), or \<open>false\<close> with \<open>*full\<close> untouched
  (\<open>Duplicate\<close>), or \<open>false\<close> after setting \<open>*full = true\<close> when \<open>full\<close> is not null
  (\<open>Full\<close>).
\<close>

datatype insert_outcome = Inserted | Duplicate | Full

partial_function (option) InternalInsert_probe ::
  "nat \<Rightarrow> block_page list \<Rightarrow> int \<Rightarrow> int \<Rightarrow> nat \<Rightarrow> nat \<Rightarrow> nat \<Rightarrow> (insert_outcome \<times> block_page list) option" where
  "InternalInsert_probe B bs k v hash_val block_ind offset =
     (if fst (BlockInsert (bs ! block_ind) offset k v) then
        Some (Inserted, bs[block_ind := snd (BlockInsert (bs ! block_ind) offset k v)])
      else if KeyAt (bs ! block_ind) offset = k \<and> ValueAt (bs ! block_ind) offset = v then
        Some (Duplicate, bs)
      else if block_ind * B + (offset + 1) = hash_val then
        Some (Full, bs)
      else if offset + 1 \<ge> B then
        InternalInsert_probe B bs k v hash_val ((block_ind + 1) mod length bs) 0
      else
        InternalInsert_probe B bs k v hash_val block_ind (offset + 1))"

definition InternalInsert ::
  "nat \<Rightarrow> LinearProbeHashTable \<Rightarrow> int \<Rightarrow> int \<Rightarrow> (insert_outcome \<times> LinearProbeHashTable) option" where
  "InternalInsert B t k v =
     (if NumBlocks t * B = 0 then None
      else map_option (\<lambda>(out, bs). (out, t\<lparr>blocks := bs\<rparr>))
             (InternalInsert_probe B (blocks t) k v (hash_fn t k mod (NumBlocks t * B))
                (hash_fn t k mod (NumBlocks t * B) div B) (hash_fn t k mod (NumBlocks t * B) mod B)))"

partial_function (option) Remove_probe ::
  "nat \<Rightarrow> block_page list \<Rightarrow> int \<Rightarrow> int \<Rightarrow> nat \<Rightarrow> nat \<Rightarrow> nat \<Rightarrow> (bool \<times> block_page list) option" where
  "Remove_probe B bs k v hash_val block_ind offset =
     (if IsOccupied (bs ! block_ind) offset then
        (if KeyAt (bs ! block_ind) offset = k \<and> ValueAt (bs ! block_ind) offset = v then
           (if \<not> IsReadable (bs ! block_ind) offset then Some (False, bs)
            else Some (True, bs[block_ind := BlockRemove (bs ! block_ind) offset]))
         else if block_ind * B + (offset + 1) = hash_val then Some (False, bs)
         else if offset + 1 \<ge> B then
           Remove_probe B bs k v hash_val ((block_ind + 1) mod length bs) 0
         else
           Remove_probe B bs k v hash_val block_ind (offset + 1))
      else Some (False, bs))"

definition Remove :: "nat \<Rightarrow> LinearProbeHashTable \<Rightarrow> int \<Rightarrow> int \<Rightarrow> (bool \<times> LinearProbeHashTable) option" where
  "Remove B t k v =
     (if NumBlocks t * B = 0 then None
      else map_option (\<lambda>(r, bs). (r, t\<lparr>blocks := bs\<rparr>))
             (Remove_probe B (blocks t) k v (hash_fn t k mod (NumBlocks t * B))
                (hash_fn t k mod (NumBlocks t * B) div B) (hash_fn t k mod (NumBlocks t * B) mod B)))"

definition GetSize :: "nat \<Rightarrow> LinearProbeHashTable \<Rightarrow> nat" where
  "GetSize B t = NumBlocks t * B"

text \<open>
  \<open>Resize\<close>: a new header with \<open>2 * initial_size / BLOCK_ARRAY_SIZE\<close> blocks, rounded up,
  all of them new pages; then every readable slot of every old block, in order, goes through
  \<open>InternalInsert\<close> on the new table, whose result is dropped. (\<open>2 * initial_size\<close> does not
  wrap for any table that fits in memory.)
\<close>

fun Resize_move :: "nat \<Rightarrow> slot list \<Rightarrow> LinearProbeHashTable \<Rightarrow> LinearProbeHashTable option" where
  "Resize_move B [] t = Some t"
| "Resize_move B (s # ss) t =
     (if readable s then
        (case InternalInsert B t (key s) (val s) of
           None \<Rightarrow> None
         | Some (out, t') \<Rightarrow> Resize_move B ss t')
      else Resize_move B ss t)"

definition block_slots :: "nat \<Rightarrow> block_page \<Rightarrow> slot list" where
  "block_slots B bucket = map (\<lambda>offset. bucket ! offset) [0..<B]"

definition Resize :: "nat \<Rightarrow> LinearProbeHashTable \<Rightarrow> nat \<Rightarrow> LinearProbeHashTable option" where
  "Resize B t initial_size =
     (if B = 0 then None
      else Resize_move B (concat (map (block_slots B) (blocks t)))
             (LinearProbeHashTable_ctor B
                (2 * initial_size div B + (if (2 * initial_size) mod B > 0 then 1 else 0)) (hash_fn t)))"

text \<open>
  \<open>Insert\<close>: \<open>full\<close> starts as \<open>false\<close> and is never reset; the loop retries after every
  \<open>Resize\<close>.
\<close>

partial_function (option) Insert_retry ::
  "nat \<Rightarrow> LinearProbeHashTable \<Rightarrow> int \<Rightarrow> int \<Rightarrow> bool \<Rightarrow> (bool \<times> LinearProbeHashTable) option" where
  "Insert_retry B t k v full =
     (case InternalInsert B t k v of
        None \<Rightarrow> None
      | Some (Inserted, t') \<Rightarrow> Some (True, t')
      | Some (Duplicate, t') \<Rightarrow>
          (if full then
             (case Resize B t' (GetSize B t') of
                None \<Rightarrow> None
              | Some t'' \<Rightarrow> Insert_retry B t'' k v full)
           else Some (False, t'))
      | Some (Full, t') \<Rightarrow>
          (case Resize B t' (GetSize B t') of
             None \<Rightarrow> None
           | Some t'' \<Rightarrow> Insert_retry B t'' k v True))"

definition Insert :: "nat \<Rightarrow> LinearProbeHashTable \<Rightarrow> int \<Rightarrow> int \<Rightarrow> (bool \<times> LinearProbeHashTable) option" where
  "Insert B t k v = Insert_retry B t k v False"

text \<open>
  The number of slots a probe at \<open>(block_ind, offset)\<close> can still move on to before it is
  back at \<open>hash_val\<close>; it measures the probe loops that start at a slot other than 0.
\<close>

definition probe_left :: "nat \<Rightarrow> nat \<Rightarrow> nat \<Rightarrow> nat \<Rightarrow> nat \<Rightarrow> nat" where
  "probe_left B N hash_val block_ind offset =
     (if block_ind * B + offset < hash_val then hash_val - (block_ind * B + offset) - 1
      else hash_val + N * B - (block_ind * B + offset) - 1)"

text \<open>The live contents: the multiset of the (key, value) pairs in readable slots.\<close>

definition readable_pairs :: "LinearProbeHashTable \<Rightarrow> (int \<times> int) multiset" where
  "readable_pairs t = mset (map (\<lambda>s. (key s, val s)) (filter readable (concat (blocks t))))"

text \<open>
  Well-formed tables: at least one block, every block with \<open>B\<close> slots, \<open>B > 0\<close>; and the
  list of the (key, value) pairs in the readable slots of a list of slots.
\<close>

definition blocks_wf :: "nat \<Rightarrow> block_page list \<Rightarrow> bool" where
  "blocks_wf B bs \<longleftrightarrow> list_all (\<lambda>bucket. length bucket = B) bs"

definition slot_pair :: "slot \<Rightarrow> int \<times> int" where
  "slot_pair s = (key s, val s)"

definition live_pairs :: "slot list \<Rightarrow> (int \<times> int) list" where
  "live_pairs ss = map slot_pair (filter readable ss)"

definition table_wf :: "nat \<Rightarrow> LinearProbeHashTable \<Rightarrow> bool" where
  "table_wf B t \<longleftrightarrow> 0 < B \<and> 0 < NumBlocks t \<and> blocks_wf B (blocks t)"

text \<open>
  Well-formedness of a pool of \<open>n\<close> frames: \<open>pages_\<close> and the replacer have \<open>n\<close> entries, and
  every frame id in the free list and in the page table is an index into \<open>pages_\<close>.
\<close>

definition pool_wf :: "nat \<Rightarrow> BufferPoolManager \<Rightarrow> bool" where
  "pool_wf n b \<longleftrightarrow>
     length (pages b) = n \<and> length (frames (replacer b)) = n \<and>
     list_all (\<lambda>f. 0 \<le> f \<and> nat f < n) (free_list b) \<and>
     (\<forall>p f. page_table b p = Some f \<longrightarrow> 0 \<le> f \<and> nat f < n)"

section \<open>Concrete states used in the evaluations\<close>

text \<open>
  A pool of one frame after \<open>NewPage\<close> (page 0 in frame 0) and \<open>UnpinPage(0, false)\<close>: page 0
  is resident, clean, with pin count 0.
\<close>

definition pool_one_unpinned :: BufferPoolManager where
  "pool_one_unpinned =
     \<lparr>pool_size = 1,
      pages = [\<lparr>data = replicate PAGE_SIZE 0, page_id = 0, pin_count = 0, is_dirty = False\<rparr>],
      replacer = \<lparr>frames = [\<lparr>pin = False, ref = True\<rparr>], clock_hand = 0, clock_size = 1\<rparr>,
      free_list = [],
      page_table = [0 \<mapsto> 0],
      disk_manager = \<lparr>stored = (\<lambda>_. replicate PAGE_SIZE 0), next_page_id = 1,
                       disk_calls = [CallAllocatePage]\<rparr>\<rparr>"

text \<open>A pool of two frames after two \<open>NewPage\<close> calls: pages 0 and 1, both pinned once.\<close>

definition pool_two_pinned :: BufferPoolManager where
  "pool_two_pinned =
     \<lparr>pool_size = 2,
      pages = [\<lparr>data = replicate PAGE_SIZE 0, page_id = 0, pin_count = 1, is_dirty = False\<rparr>,
               \<lparr>data = replicate PAGE_SIZE 0, page_id = 1, pin_count = 1, is_dirty = False\<rparr>],
      replacer = \<lparr>frames = [\<lparr>pin = True, ref = True\<rparr>, \<lparr>pin = True, ref = True\<rparr>],
                   clock_hand = 0, clock_size = 0\<rparr>,
      free_list = [],
      page_table = [0 \<mapsto> 0, 1 \<mapsto> 1],
      disk_manager = \<lparr>stored = (\<lambda>_. replicate PAGE_SIZE 0), next_page_id = 2,
                       disk_calls = [CallAllocatePage, CallAllocatePage]\<rparr>\<rparr>"

text \<open>
  Hash tables with \<open>hash(k) = k\<close>. \<open>full_table\<close>: one block of two slots, both live.
  \<open>tombstone_table\<close>: one block of four slots with a tombstone in slot 1 before the live pair
  (1, 20) in slot 2. \<open>duplicate_table\<close>: the same with the tombstone claimed by a second
  (1, 20).
\<close>

definition full_table :: LinearProbeHashTable where
  "full_table = \<lparr>hash_fn = nat,
     blocks = [[\<lparr>occupied = True, readable = True, key = 3, val = 30\<rparr>,
                \<lparr>occupied = True, readable = True, key = 1, val = 10\<rparr>]]\<rparr>"

definition tombstone_table :: LinearProbeHashTable where
  "tombstone_table = \<lparr>hash_fn = nat,
     blocks = [[\<lparr>occupied = False, readable = False, key = 0, val = 0\<rparr>,
                \<lparr>occupied = True, readable = False, key = 1, val = 10\<rparr>,
                \<lparr>occupied = True, readable = True, key = 1, val = 20\<rparr>,
                \<lparr>occupied = False, readable = False, key = 0, val = 0\<rparr>]]\<rparr>"

definition duplicate_table :: LinearProbeHashTable where
  "duplicate_table = \<lparr>hash_fn = nat,
     blocks = [[\<lparr>occupied = False, readable = False, key = 0, val = 0\<rparr>,
                \<lparr>occupied = True, readable = True, key = 1, val = 20\<rparr>,
                \<lparr>occupied = True, readable = True, key = 1, val = 20\<rparr>,
                \<lparr>occupied = False, readable = False, key = 0, val = 0\<rparr>]]\<rparr>"

text \<open>A sequence of \<open>Insert\<close> and \<open>Remove\<close> calls on one table.\<close>

datatype table_call = CallInsert int int | CallRemove int int

fun table_call_step :: "nat \<Rightarrow> LinearProbeHashTable \<Rightarrow> table_call \<Rightarrow> LinearProbeHashTable option" where
  "table_call_step B t (CallInsert k v) = map_option snd (Insert B t k v)"
| "table_call_step B t (CallRemove k v) = map_option snd (Remove B t k v)"

fun table_calls :: "nat \<Rightarrow> LinearProbeHashTable \<Rightarrow> table_call list \<Rightarrow> LinearProbeHashTable option" where
  "table_calls B t [] = Some t"
| "table_calls B t (c # cs) =
     (case table_call_step B t c of None \<Rightarrow> None | Some t' \<Rightarrow> table_calls B t' cs)"

section \<open>Properties of the clock replacer\<close>

lemma filter_length_update:
  "i < length xs \<Longrightarrow>
   length (filter P (xs[i := y])) + (if P (xs ! i) then 1 else 0)
     = length (filter P xs) + (if P y then 1 else 0)"
proof (induction xs arbitrary: i)
  case Nil
  then show ?case by simp
next
  case (Cons x xs)
  show ?case
  proof (cases i)
    case 0
    then show ?thesis by simp
  next
    case (Suc j)
    with Cons.prems have "j < length xs" by simp
    from Cons.IH [OF this] Suc show ?thesis by simp
  qed
qed

lemma unpinned_le_length: "unpinned_count r \<le> length (frames r)"
  by (simp add: unpinned_count_def)

lemma size_dec_pos: "0 < x \<Longrightarrow> x < SIZE_MOD \<Longrightarrow> size_dec x = x - 1"
proof -
  assume a: "0 < x" "x < SIZE_MOD"
  then have e: "x + (SIZE_MOD - 1) = (x - 1) + SIZE_MOD" by simp
  have "size_dec x = (x + (SIZE_MOD - 1)) mod SIZE_MOD" by (simp only: size_dec_def)
  also have "\<dots> = ((x - 1) + SIZE_MOD) mod SIZE_MOD" by (simp only: e)
  also have "\<dots> = (x - 1) mod SIZE_MOD" by (rule mod_add_self2)
  also have "\<dots> = x - 1" by (rule mod_less) (use a in arith)
  finally show ?thesis .
qed

lemma size_inc_small: "x < SIZE_MOD - 1 \<Longrightarrow> size_inc x = x + 1"
  by (simp add: size_inc_def SIZE_MOD_def)

lemma unpinned_set_pin:
  assumes "i < length (frames r)" "\<not> pin (frames r ! i)"
  shows "unpinned_count (r\<lparr>frames := (frames r)[i := (frames r ! i)\<lparr>pin := True\<rparr>]\<rparr>) + 1
           = unpinned_count r"
  using filter_length_update [OF assms(1), of "\<lambda>m. \<not> pin m" "(frames r ! i)\<lparr>pin := True\<rparr>"] assms(2)
  by (simp add: unpinned_count_def)

lemma unpinned_clear_pin:
  assumes "i < length (frames r)"
  shows "unpinned_count (r\<lparr>frames := (frames r)[i := (frames r ! i)\<lparr>pin := False, ref := True\<rparr>]\<rparr>)
           = unpinned_count r + (if pin (frames r ! i) then 1 else 0)"
  using filter_length_update [OF assms(1), of "\<lambda>m. \<not> pin m" "(frames r ! i)\<lparr>pin := False, ref := True\<rparr>"]
  by (simp add: unpinned_count_def split: if_splits)

lemma unpinned_clear_ref:
  assumes "i < length (frames r)"
  shows "unpinned_count (r\<lparr>frames := (frames r)[i := (frames r ! i)\<lparr>ref := False\<rparr>]\<rparr>)
           = unpinned_count r"
  using filter_length_update [OF assms(1), of "\<lambda>m. \<not> pin m" "(frames r ! i)\<lparr>ref := False\<rparr>"]
  by (simp add: unpinned_count_def split: if_splits)

lemma Pin_inv: "replacer_inv r \<Longrightarrow> replacer_inv (Pin r f)"
proof -
  assume inv: "replacer_inv r"
  show ?thesis
  proof (cases "size_of_frame_id f < length (frames r) \<and> \<not> pin (frames r ! size_of_frame_id f)")
    case True
    then have i: "size_of_frame_id f < length (frames r)" and np: "\<not> pin (frames r ! size_of_frame_id f)"
      by simp_all
    let ?r' = "r\<lparr>frames := (frames r)[size_of_frame_id f := (frames r ! size_of_frame_id f)\<lparr>pin := True\<rparr>]\<rparr>"
    have c: "unpinned_count ?r' + 1 = unpinned_count r"
      by (rule unpinned_set_pin [OF i np])
    have "unpinned_count r < SIZE_MOD"
      using inv unpinned_le_length [of r] by (simp add: replacer_inv_def)
    with c inv have "size_dec (clock_size r) = unpinned_count ?r'"
      by (simp add: replacer_inv_def size_dec_pos)
    moreover have "Pin r f = ?r'\<lparr>clock_size := size_dec (clock_size r)\<rparr>"
      using i np by (simp add: Pin_def)
    ultimately show ?thesis
      using inv by (simp add: replacer_inv_def unpinned_count_def)
  next
    case False
    then show ?thesis using inv by (auto simp: Pin_def)
  qed
qed

lemma Unpin_inv: "replacer_inv r \<Longrightarrow> replacer_inv (Unpin r f)"
proof -
  assume inv: "replacer_inv r"
  show ?thesis
  proof (cases "size_of_frame_id f < length (frames r)")
    case True
    note i = this
    show ?thesis
    proof (cases "pin (frames r ! size_of_frame_id f)")
      case True
      have "unpinned_count r < length (frames r)"
      proof -
        have "length (filter (\<lambda>m. \<not> pin m) (frames r)) < length (frames r)"
          by (rule length_filter_less [of "frames r ! size_of_frame_id f"]) (use i True in auto)
        then show ?thesis by (simp add: unpinned_count_def)
      qed
      with inv have "clock_size r < SIZE_MOD - 1" by (auto simp: replacer_inv_def)
      then have "size_inc (clock_size r) = clock_size r + 1" by (rule size_inc_small)
      with unpinned_clear_pin [OF i] True inv i show ?thesis
        by (simp add: Unpin_def replacer_inv_def unpinned_count_def)
    next
      case False
      with unpinned_clear_pin [OF i] inv i show ?thesis
        by (simp add: Unpin_def replacer_inv_def unpinned_count_def)
    qed
  next
    case False
    then show ?thesis using inv by (simp add: Unpin_def)
  qed
qed

lemma Victim_sweep:
  assumes "replacer_inv r" "0 < clock_size r" "d < length (frames r)"
    and "\<not> pin (frames r ! ((clock_hand r + d) mod length (frames r)))"
    and "referenced_count r * length (frames r) + d = m"
  shows "\<exists>f r'. Victim r = Some (Some f, r') \<and> replacer_inv r'"
  using assms
proof (induction m arbitrary: r d rule: less_induct)
  case (less m)
  let ?n = "length (frames r)"
  let ?h = "clock_hand r mod ?n"
  let ?fs = "frames r"
  from less.prems(3) have n: "0 < ?n" by auto
  then have h: "?h < ?n" by simp
  from less.prems(1) have nm: "?n < SIZE_MOD" by (simp add: replacer_inv_def)
  with h have inc: "size_inc ?h = ?h + 1" by (simp add: size_inc_small)
  show ?case
  proof (cases "pin (?fs ! ?h)")
    case True
    let ?r' = "r\<lparr>clock_hand := size_inc ?h\<rparr>"
    have step: "Victim r = Victim ?r'"
      by (subst Victim.simps) (use less.prems(2) n True in simp)
    have d0: "d \<noteq> 0"
    proof
      assume "d = 0"
      with less.prems(4) have "\<not> pin (?fs ! ?h)" by simp
      with True show False by simp
    qed
    have "(clock_hand ?r' + (d - 1)) mod ?n = (?h + d) mod ?n"
      using d0 inc by simp
    also have "\<dots> = (clock_hand r + d) mod ?n" by (simp add: mod_add_left_eq)
    finally have tgt: "\<not> pin (frames ?r' ! ((clock_hand ?r' + (d - 1)) mod length (frames ?r')))"
      using less.prems(4) by simp
    have inv': "replacer_inv ?r'"
      using less.prems(1) by (simp add: replacer_inv_def unpinned_count_def)
    have "referenced_count ?r' * length (frames ?r') + (d - 1) < m"
      using less.prems(5) d0 by (simp add: referenced_count_def)
    from less.IH [OF this inv' _ _ tgt refl] less.prems(2,3) d0
    have "\<exists>f r'. Victim ?r' = Some (Some f, r') \<and> replacer_inv r'" by simp
    with step show ?thesis by simp
  next
    case False
    note np = this
    show ?thesis
    proof (cases "ref (?fs ! ?h)")
      case True
      let ?r' = "r\<lparr>frames := ?fs[?h := (?fs ! ?h)\<lparr>ref := False\<rparr>], clock_hand := size_inc ?h\<rparr>"
      have step: "Victim r = Victim ?r'"
        by (subst Victim.simps) (use less.prems(2) n np True in simp)
      have rc: "referenced_count ?r' + 1 = referenced_count r"
        using filter_length_update [OF h, of "\<lambda>m. \<not> pin m \<and> ref m" "(?fs ! ?h)\<lparr>ref := False\<rparr>"] np True
        by (simp add: referenced_count_def)
      have uc: "unpinned_count ?r' = unpinned_count r"
        using unpinned_clear_ref [OF h] by (simp add: unpinned_count_def)
      have inv': "replacer_inv ?r'"
        using less.prems(1) uc by (simp add: replacer_inv_def)
      have "clock_hand ?r' + (?n - 1) = ?h + ?n"
        using n inc by simp
      then have "(clock_hand ?r' + (?n - 1)) mod ?n = (?h + ?n) mod ?n"
        by (simp only:)
      also have "\<dots> = ?h" using h by simp
      finally have tgt: "\<not> pin (frames ?r' ! ((clock_hand ?r' + (?n - 1)) mod length (frames ?r')))"
        using np h by simp
      have "referenced_count ?r' * ?n + (?n - 1) < referenced_count r * ?n + d"
      proof -
        have "referenced_count r * ?n = referenced_count ?r' * ?n + ?n"
          using rc [symmetric] by (simp add: algebra_simps)
        then show ?thesis using n by linarith
      qed
      then have lt: "referenced_count ?r' * length (frames ?r') + (?n - 1) < m"
        using less.prems(5) by simp
      have dn: "?n - 1 < length (frames ?r')" using n by simp
      have cs: "0 < clock_size ?r'" using less.prems(2) by simp
      from less.IH [OF lt inv' cs dn tgt refl]
      have "\<exists>f r'. Victim ?r' = Some (Some f, r') \<and> replacer_inv r'" .
      with step show ?thesis by simp
    next
      case False
      let ?r' = "r\<lparr>frames := ?fs[?h := (?fs ! ?h)\<lparr>pin := True\<rparr>],
                   clock_size := size_dec (clock_size r), clock_hand := size_inc ?h\<rparr>"
      have step: "Victim r = Some (Some (frame_id_of_size ?h), ?r')"
        by (subst Victim.simps) (use less.prems(2) n np False in simp)
      have c: "unpinned_count (r\<lparr>frames := ?fs[?h := (?fs ! ?h)\<lparr>pin := True\<rparr>]\<rparr>) + 1 = unpinned_count r"
        by (rule unpinned_set_pin [OF h np])
      have "clock_size r < SIZE_MOD"
        using less.prems(1) unpinned_le_length [of r] by (simp add: replacer_inv_def)
      then have "size_dec (clock_size r) = clock_size r - 1"
        using less.prems(2) by (simp add: size_dec_pos)
      with c less.prems(1) have "replacer_inv ?r'"
        by (simp add: replacer_inv_def unpinned_count_def)
      with step show ?thesis by simp
    qed
  qed
qed

lemma unpinned_pos_index:
  assumes "0 < unpinned_count r"
  shows "\<exists>j < length (frames r). \<not> pin (frames r ! j)"
proof -
  from assms have "filter (\<lambda>m. \<not> pin m) (frames r) \<noteq> []"
    by (simp add: unpinned_count_def)
  then obtain x where "x \<in> set (frames r)" "\<not> pin x"
    by (auto simp: filter_empty_conv)
  then show ?thesis by (auto simp: in_set_conv_nth)
qed

lemma Victim_returns:
  assumes "replacer_inv r"
  shows "\<exists>out r'. Victim r = Some (out, r') \<and> replacer_inv r' \<and> (out = None \<longleftrightarrow> unpinned_count r = 0)"
proof (cases "0 < clock_size r")
  case True
  with assms have "0 < unpinned_count r" by (simp add: replacer_inv_def)
  from unpinned_pos_index [OF this] obtain j where j: "j < length (frames r)" "\<not> pin (frames r ! j)"
    by blast
  let ?n = "length (frames r)"
  let ?d = "(j + (?n - clock_hand r mod ?n)) mod ?n"
  have n: "0 < ?n" using j(1) by auto
  have "(clock_hand r + ?d) mod ?n = (clock_hand r mod ?n + (j + (?n - clock_hand r mod ?n))) mod ?n"
    by (simp add: mod_simps)
  also have "clock_hand r mod ?n + (j + (?n - clock_hand r mod ?n)) = j + ?n"
  proof -
    have "clock_hand r mod ?n < ?n" using n by simp
    then show ?thesis by arith
  qed
  also have "(j + ?n) mod ?n = j" using j by simp
  finally have tgt: "\<not> pin (frames r ! ((clock_hand r + ?d) mod ?n))" using j by simp
  have "?d < ?n" using n by simp
  from Victim_sweep [OF assms True this tgt refl]
  obtain f r' where "Victim r = Some (Some f, r')" "replacer_inv r'" by blast
  with \<open>0 < unpinned_count r\<close> show ?thesis by simp
next
  case False
  then have "Victim r = Some (None, r)" by (subst Victim.simps) simp
  with False assms show ?thesis by (simp add: replacer_inv_def)
qed

lemma ctor_inv: "num_pages < SIZE_MOD \<Longrightarrow> replacer_inv (ClockReplacer_ctor num_pages)"
  by (simp add: replacer_inv_def ClockReplacer_ctor_def unpinned_count_def)

lemma replacer_calls_inv:
  "replacer_inv r \<Longrightarrow> \<exists>r'. replacer_calls r cs = Some r' \<and> replacer_inv r'"
proof (induction cs arbitrary: r)
  case Nil
  then show ?case by simp
next
  case (Cons c cs)
  have "\<exists>r1. replacer_call_step r c = Some r1 \<and> replacer_inv r1"
  proof (cases c)
    case (CallPin f)
    then show ?thesis using Pin_inv [OF Cons.prems] by simp
  next
    case (CallUnpin f)
    then show ?thesis using Unpin_inv [OF Cons.prems] by simp
  next
    case CallVictim
    from Victim_returns [OF Cons.prems] obtain out r1 where
      "Victim r = Some (out, r1)" "replacer_inv r1" by blast
    with CallVictim show ?thesis by simp
  qed
  then obtain r1 where r1: "replacer_call_step r c = Some r1" "replacer_inv r1" by blast
  from Cons.IH [OF r1(2)] r1(1) show ?case by simp
qed

text \<open>
  C10: from the constructor's all-pinned state, after every sequence of \<open>Pin\<close>, \<open>Unpin\<close>
  and \<open>Victim\<close> calls (each of which returns), \<open>Size\<close> (the counter \<open>clock_size_\<close>) equals
  the number of entries whose pinned bit is false, and a further \<open>Victim\<close> returns, with
  \<open>false\<close> exactly when that number is 0.
\<close>

theorem replacer_size_counts_unpinned:
  assumes "num_pages < SIZE_MOD"
  shows "\<exists>r. replacer_calls (ClockReplacer_ctor num_pages) cs = Some r
           \<and> Size r = unpinned_count r
           \<and> (\<exists>out r'. Victim r = Some (out, r') \<and> (out = None \<longleftrightarrow> unpinned_count r = 0))"
proof -
  from replacer_calls_inv [OF ctor_inv [OF assms]]
  obtain r where r: "replacer_calls (ClockReplacer_ctor num_pages) cs = Some r" "replacer_inv r"
    by blast
  from Victim_returns [OF r(2)] obtain out r' where
    "Victim r = Some (out, r')" "out = None \<longleftrightarrow> unpinned_count r = 0" by auto
  with r show ?thesis by (auto simp: Size_def replacer_inv_def)
qed

theorem replacer_size_counts_unpinned_witness:
  "(3::nat) < SIZE_MOD \<and>
   (\<exists>r. replacer_calls (ClockReplacer_ctor 3) [CallUnpin 0, CallUnpin 1, CallVictim, CallPin 1] = Some r
      \<and> Size r = unpinned_count r
      \<and> (\<exists>out r'. Victim r = Some (out, r') \<and> (out = None \<longleftrightarrow> unpinned_count r = 0)))"
proof -
  have h: "(3::nat) < SIZE_MOD" by (simp add: SIZE_MOD_def)
  from replacer_size_counts_unpinned [OF h, of "[CallUnpin 0, CallUnpin 1, CallVictim, CallPin 1]"] h
  show ?thesis by blast
qed

section \<open>Properties of the buffer pool manager\<close>

lemmas replacer_eval = ClockReplacer_ctor_def Unpin_def Pin_def size_of_frame_id_def size_inc_def
  size_dec_def SIZE_MOD_def frame_id_of_size_def Victim.simps Size_def

lemmas pool_eval = BufferPoolManager_ctor_def DiskManager_ctor_def Page_ctor_def FetchPageImpl_def
  UnpinPageImpl_def NewPageImpl_def DeletePageImpl_def fetch_into_frame_def new_into_frame_def
  write_back_and_reset_def page_at_def set_page_def ReadPage_def WritePage_def AllocatePage_def
  DeallocatePage_def ResetMemory_def GetPinCount_def INVALID_PAGE_ID_def

lemma replicate_4: "replicate 4 x = [x, x, x, x]"
  by (simp add: numeral_eq_Suc)

lemma replicate_2: "replicate 2 x = [x, x]"
  by (simp add: numeral_eq_Suc)

lemma replicate_1: "replicate 1 x = [x]"
  by simp

lemma list_update_numeral: "(x # xs)[numeral n := y] = x # xs[pred_numeral n := y]"
  by (simp add: numeral_eq_Suc)

lemma upt_2: "[0..<2] = [0, 1]"
  by (simp add: upt_rec)

lemma upt_4: "[0..<4] = [0, 1, 2, 3]"
  by (simp add: upt_rec)

lemma pool_one_unpinned_reached:
  "pool_calls (BufferPoolManager_ctor 1 DiskManager_ctor) [CallNewPage, CallUnpinPage 0 False]
     = Some pool_one_unpinned"
  by (simp add: pool_eval replacer_eval pool_one_unpinned_def)

lemma pool_two_pinned_reached:
  "pool_calls (BufferPoolManager_ctor 2 DiskManager_ctor) [CallNewPage, CallNewPage]
     = Some pool_two_pinned"
  by (simp add: pool_eval replacer_eval pool_two_pinned_def upt_2 replicate_2)

text \<open>
  C1, evaluated where the code departs from it. A new pool of two frames, over a disk that
  has handed out the page ids 0 to 7 before, fetches pages 5 and 6 through the free list.
  Each fetch calls \<open>Unpin(frame_id)\<close> and then \<open>Pin(page_id)\<close>, which the replacer ignores
  as out of range, so both frames stay unpinned in the replacer while their pin count is 1.
  \<open>Victim\<close> then returns frame 0, whose pin count is 1, and \<open>FetchPage(7)\<close> reuses that
  frame for page 7.
\<close>

theorem FetchPage_evicts_pinned_frame:
  "\<exists>b. pool_calls (BufferPoolManager_ctor 2 (DiskManager_ctor\<lparr>next_page_id := 8\<rparr>))
            [CallFetchPage 5, CallFetchPage 6] = Some b
     \<and> page_id (page_at b 0) = 5 \<and> pin_count (page_at b 0) = 1
     \<and> (\<exists>r. Victim (replacer b) = Some (Some 0, r))
     \<and> (\<exists>b'. FetchPageImpl b 7 = Some (Some 0, b') \<and> page_id (page_at b' 0) = 7)"
  by (simp add: pool_eval replacer_eval upt_2)

text \<open>
  C2, evaluated where the code departs from it. A pool of one frame: \<open>NewPage\<close> gives page 0
  in frame 0, \<open>UnpinPage(0, false)\<close> makes the frame evictable, and the second \<open>NewPage\<close>
  evicts it for page 1. The victim branch never erases the old entry: afterwards the page
  table maps both page 0 and page 1 to frame 0, which holds page 1.
\<close>

theorem NewPage_keeps_victim_mapping:
  "\<exists>b. pool_calls (BufferPoolManager_ctor 1 DiskManager_ctor)
            [CallNewPage, CallUnpinPage 0 False, CallNewPage] = Some b
     \<and> page_table b 0 = Some 0 \<and> page_table b 1 = Some 0 \<and> page_id (page_at b 0) = 1"
  by (simp add: pool_eval replacer_eval)

text \<open>
  C3, evaluated where the code departs from it. On a new pool of two frames, over a disk
  that has handed out the page ids 0 to 7 before, \<open>FetchPage(5)\<close> takes frame 0 from the
  free list and returns it with pin count 1, but the replacer's entry for frame 0 is left
  unpinned and counted by \<open>Size\<close>: the replacer has received \<open>Unpin(0)\<close> and then
  \<open>Pin(5)\<close>, the page id, not \<open>Pin(0)\<close>.
\<close>

theorem FetchPage_free_list_pins_page_id:
  "\<exists>b. FetchPageImpl (BufferPoolManager_ctor 2 (DiskManager_ctor\<lparr>next_page_id := 8\<rparr>)) 5
          = Some (Some 0, b)
     \<and> pin_count (page_at b 0) = 1
     \<and> \<not> pin (frames (replacer b) ! 0) \<and> Size (replacer b) = 1
     \<and> replacer b = Pin (Unpin (ClockReplacer_ctor 2) 0) 5
     \<and> replacer b \<noteq> Pin (Unpin (ClockReplacer_ctor 2) 0) 0"
  by (simp add: pool_eval replacer_eval upt_2)

text \<open>
  C7, evaluated where the code departs from it. Page 3 is not resident in a new pool;
  \<open>DeletePage(3)\<close> returns \<open>true\<close> and leaves the pool and the disk manager as they were: no
  \<open>DeallocatePage\<close> call is made.
\<close>

theorem DeletePage_not_resident_no_deallocate:
  "page_table (BufferPoolManager_ctor 1 DiskManager_ctor) 3 = None
   \<and> DeletePageImpl (BufferPoolManager_ctor 1 DiskManager_ctor) 3
        = (True, BufferPoolManager_ctor 1 DiskManager_ctor)
   \<and> disk_calls (disk_manager (snd (DeletePageImpl (BufferPoolManager_ctor 1 DiskManager_ctor) 3))) = []"
  by (simp add: pool_eval)

text \<open>
  C8, evaluated where the code departs from it. In \<open>pool_one_unpinned\<close> page 0 is resident in
  frame 0 with pin count 0. \<open>DeletePage(0)\<close> returns \<open>true\<close>, removes page 0 from the page
  table, calls \<open>DeallocatePage(0)\<close> and resets the frame (zero image, not dirty, pin count 0,
  page id \<open>INVALID_PAGE_ID\<close>), but the free list is empty before and after: frame 0 is not
  returned to it.
\<close>

theorem DeletePage_frame_not_freed:
  "pool_calls (BufferPoolManager_ctor 1 DiskManager_ctor) [CallNewPage, CallUnpinPage 0 False]
     = Some pool_one_unpinned
   \<and> page_table pool_one_unpinned 0 = Some 0 \<and> pin_count (page_at pool_one_unpinned 0) = 0
   \<and> fst (DeletePageImpl pool_one_unpinned 0) = True
   \<and> page_table (snd (DeletePageImpl pool_one_unpinned 0)) 0 = None
   \<and> disk_calls (disk_manager (snd (DeletePageImpl pool_one_unpinned 0)))
        = [CallAllocatePage, CallDeallocatePage 0]
   \<and> page_at (snd (DeletePageImpl pool_one_unpinned 0)) 0
        = \<lparr>data = replicate PAGE_SIZE 0, page_id = INVALID_PAGE_ID, pin_count = 0, is_dirty = False\<rparr>
   \<and> free_list pool_one_unpinned = []
   \<and> free_list (snd (DeletePageImpl pool_one_unpinned 0)) = []"
  using pool_one_unpinned_reached
  by (simp add: pool_eval pool_one_unpinned_def)

text \<open>
  Every pool reached from the constructor is well-formed, for pools of fewer than \<open>2 ^ 31\<close>
  frames (a frame id is a signed 32-bit integer).
\<close>

lemma frame_id_of_size_small: "h < 2 ^ 31 \<Longrightarrow> frame_id_of_size h = int h"
proof -
  assume h: "h < 2 ^ 31"
  have "(word_of_nat h :: 32 word) = word_of_int (int h)" by simp
  then have "frame_id_of_size h = signed_take_bit 31 (int h)"
    by (simp only: frame_id_of_size_def sint_sbintrunc') simp
  also have "\<dots> = int h"
    by (rule signed_take_bit_int_eq_self) (use h in auto)
  finally show ?thesis .
qed

lemma Victim_result:
  assumes "Victim r = Some y"
  shows "length (frames (snd y)) = length (frames r) \<and>
         (\<forall>f. fst y = Some f \<longrightarrow> (\<exists>h < length (frames r). f = frame_id_of_size h))"
proof (rule Victim.raw_induct [where P = "\<lambda>r y. length (frames (snd y)) = length (frames r) \<and>
         (\<forall>f. fst y = Some f \<longrightarrow> (\<exists>h < length (frames r). f = frame_id_of_size h))", OF _ assms],
       goal_cases)
  case (1 V r y)
  note IH = 1(1) and body = 1(2)
  show ?case
  proof (cases "0 < clock_size r")
    case False
    with body show ?thesis by auto
  next
    case True
    note cs = this
    show ?thesis
    proof (cases "length (frames r) = 0")
      case True
      with body cs show ?thesis by simp
    next
      case False
      then have h: "clock_hand r mod length (frames r) < length (frames r)" by simp
      show ?thesis
      proof (cases "pin (frames r ! (clock_hand r mod length (frames r)))")
        case True
        with body cs False have "V (r\<lparr>clock_hand := size_inc (clock_hand r mod length (frames r))\<rparr>) = Some y"
          by simp
        from IH [OF this] show ?thesis by simp
      next
        case np: False
        show ?thesis
        proof (cases "ref (frames r ! (clock_hand r mod length (frames r)))")
          case True
          with body cs False np have "V (r\<lparr>frames := (frames r)[clock_hand r mod length (frames r) :=
                        (frames r ! (clock_hand r mod length (frames r)))\<lparr>ref := False\<rparr>],
                      clock_hand := size_inc (clock_hand r mod length (frames r))\<rparr>) = Some y"
            by simp
          from IH [OF this] show ?thesis by simp
        next
          case nr: False
          with body cs False np have
            "y = (Some (frame_id_of_size (clock_hand r mod length (frames r))),
                  r\<lparr>frames := (frames r)[clock_hand r mod length (frames r) :=
                        (frames r ! (clock_hand r mod length (frames r)))\<lparr>pin := True\<rparr>],
                   clock_size := size_dec (clock_size r),
                   clock_hand := size_inc (clock_hand r mod length (frames r))\<rparr>)"
            by simp
          with h show ?thesis by auto
        qed
      qed
    qed
  qed
qed

lemma Victim_frame_in_range:
  assumes "Victim r = Some (Some f, r')" "length (frames r) < 2 ^ 31"
  shows "0 \<le> f \<and> nat f < length (frames r) \<and> length (frames r') = length (frames r)"
proof -
  from Victim_result [OF assms(1)] obtain h where
    h: "h < length (frames r)" "f = frame_id_of_size h" and l: "length (frames r') = length (frames r)"
    by auto
  from h(1) assms(2) have "h < 2 ^ 31" by simp
  from frame_id_of_size_small [OF this] h l show ?thesis by simp
qed

lemma Pin_length [simp]: "length (frames (Pin r f)) = length (frames r)"
  by (simp add: Pin_def)

lemma Unpin_length [simp]: "length (frames (Unpin r f)) = length (frames r)"
  by (simp add: Unpin_def)

lemma set_page_simps [simp]:
  "length (pages (set_page b f p)) = length (pages b)"
  "replacer (set_page b f p) = replacer b"
  "free_list (set_page b f p) = free_list b"
  "page_table (set_page b f p) = page_table b"
  "disk_manager (set_page b f p) = disk_manager b"
  by (simp_all add: set_page_def)

lemma write_back_and_reset_wf: "pool_wf n b \<Longrightarrow> pool_wf n (write_back_and_reset b f)"
  by (simp add: pool_wf_def write_back_and_reset_def Let_def)

lemma fetch_into_frame_wf:
  "pool_wf n b \<Longrightarrow> 0 \<le> f \<Longrightarrow> nat f < n \<Longrightarrow> pool_wf n (fetch_into_frame b f p)"
  by (simp add: pool_wf_def fetch_into_frame_def Let_def ReadPage_def)

lemma new_into_frame_wf:
  "pool_wf n b \<Longrightarrow> 0 \<le> f \<Longrightarrow> nat f < n \<Longrightarrow> pool_wf n (snd (new_into_frame b f))"
  by (simp add: pool_wf_def new_into_frame_def Let_def AllocatePage_def)

lemma FetchPageImpl_wf:
  assumes "pool_wf n b" "n < 2 ^ 31" "FetchPageImpl b p = Some (out, b')"
  shows "pool_wf n b'"
proof (cases "page_table b p")
  case (Some f)
  with assms show ?thesis by (auto simp: FetchPageImpl_def pool_wf_def)
next
  case None
  note nt = this
  show ?thesis
  proof (cases "free_list b")
    case (Cons f rest)
    with assms(1) have f: "0 \<le> f" "nat f < n" by (simp_all add: pool_wf_def)
    from assms(1) Cons have "pool_wf n (b\<lparr>replacer := Unpin (replacer b) f, free_list := rest\<rparr>)"
      by (simp add: pool_wf_def)
    from fetch_into_frame_wf [OF this f] assms(3) nt Cons show ?thesis
      by (auto simp: FetchPageImpl_def)
  next
    case Nil
    show ?thesis
    proof (cases "Victim (replacer b)")
      case None
      with assms(3) nt Nil show ?thesis by (simp add: FetchPageImpl_def)
    next
      case (Some y)
      obtain o1 r where y: "y = (o1, r)" by (cases y)
      from assms(1) have len: "length (frames (replacer b)) = n" by (simp add: pool_wf_def)
      show ?thesis
      proof (cases o1)
        case None
        with Victim_result [OF Some] y have "length (frames r) = n" using len by simp
        with assms(1) have "pool_wf n (b\<lparr>replacer := r\<rparr>)" by (simp add: pool_wf_def)
        with assms(3) nt Nil Some y None show ?thesis by (auto simp: FetchPageImpl_def)
      next
        case (Some f)
        with \<open>Victim (replacer b) = Some y\<close> y have v: "Victim (replacer b) = Some (Some f, r)" by simp
        from Victim_frame_in_range [OF v] len assms(2)
        have f: "0 \<le> f" "nat f < n" and lr: "length (frames r) = n" by simp_all
        from assms(1) lr have "pool_wf n (b\<lparr>replacer := r\<rparr>)" by (simp add: pool_wf_def)
        from fetch_into_frame_wf [OF write_back_and_reset_wf [OF this, of f] f] assms(3) nt Nil v
        show ?thesis by (auto simp: FetchPageImpl_def)
      qed
    qed
  qed
qed

lemma NewPageImpl_wf:
  assumes "pool_wf n b" "n < 2 ^ 31" "NewPageImpl b = Some (out, b')"
  shows "pool_wf n b'"
proof (cases "free_list b")
  case (Cons f rest)
  with assms(1) have f: "0 \<le> f" "nat f < n" by (simp_all add: pool_wf_def)
  from assms(1) Cons have "pool_wf n (b\<lparr>replacer := Unpin (replacer b) f, free_list := rest\<rparr>)"
    by (simp add: pool_wf_def)
  from new_into_frame_wf [OF this f] assms(3) Cons show ?thesis
    by (auto simp: NewPageImpl_def split: prod.splits)
next
  case Nil
  show ?thesis
  proof (cases "Victim (replacer b)")
    case None
    with assms(3) Nil show ?thesis by (simp add: NewPageImpl_def)
  next
    case (Some y)
    obtain o1 r where y: "y = (o1, r)" by (cases y)
    from assms(1) have len: "length (frames (replacer b)) = n" by (simp add: pool_wf_def)
    show ?thesis
    proof (cases o1)
      case None
      with Victim_result [OF Some] y have "length (frames r) = n" using len by simp
      with assms(1) have "pool_wf n (b\<lparr>replacer := r\<rparr>)" by (simp add: pool_wf_def)
      with assms(3) Nil Some y None show ?thesis by (auto simp: NewPageImpl_def)
    next
      case (Some f)
      with \<open>Victim (replacer b) = Some y\<close> y have v: "Victim (replacer b) = Some (Some f, r)" by simp
      from Victim_frame_in_range [OF v] len assms(2)
      have f: "0 \<le> f" "nat f < n" and lr: "length (frames r) = n" by simp_all
      from assms(1) lr have "pool_wf n (b\<lparr>replacer := r\<rparr>)" by (simp add: pool_wf_def)
      from new_into_frame_wf [OF write_back_and_reset_wf [OF this, of f] f] assms(3) Nil v
      show ?thesis by (auto simp: NewPageImpl_def split: prod.splits)
    qed
  qed
qed

lemma UnpinPageImpl_wf: "pool_wf n b \<Longrightarrow> pool_wf n (snd (UnpinPageImpl b p dirty))"
  by (auto simp: UnpinPageImpl_def pool_wf_def Let_def split: option.splits)

lemma FlushPageImpl_wf: "pool_wf n b \<Longrightarrow> pool_wf n (snd (FlushPageImpl b p))"
  by (auto simp: FlushPageImpl_def pool_wf_def split: option.splits)

lemma DeletePageImpl_wf: "pool_wf n b \<Longrightarrow> pool_wf n (snd (DeletePageImpl b p))"
  by (auto simp: DeletePageImpl_def pool_wf_def Let_def split: option.splits if_splits)

lemma flush_frames_length: "length (fst (flush_frames ps d)) = length ps"
  by (induction ps arbitrary: d) (simp_all add: case_prod_beta)

lemma FlushAllPagesImpl_wf: "pool_wf n b \<Longrightarrow> pool_wf n (FlushAllPagesImpl b)"
  using flush_frames_length [of "take (pool_size b) (pages b)" "disk_manager b"]
  by (auto simp: FlushAllPagesImpl_def pool_wf_def split: prod.splits)

lemma ctor_wf: "n < 2 ^ 31 \<Longrightarrow> pool_wf n (BufferPoolManager_ctor n d)"
  by (auto simp: pool_wf_def BufferPoolManager_ctor_def ClockReplacer_ctor_def list_all_iff
        frame_id_of_size_small)

lemma pool_call_step_wf:
  assumes "pool_wf n b" "n < 2 ^ 31" "pool_call_step b c = Some b'"
  shows "pool_wf n b'"
proof (cases c)
  case (CallFetchPage p)
  with assms(3) obtain out where "FetchPageImpl b p = Some (out, b')" by auto
  from FetchPageImpl_wf [OF assms(1,2) this] show ?thesis .
next
  case (CallUnpinPage p dirty)
  with assms(3) UnpinPageImpl_wf [OF assms(1)] show ?thesis by auto
next
  case (CallFlushPage p)
  with assms(3) FlushPageImpl_wf [OF assms(1)] show ?thesis by auto
next
  case CallNewPage
  with assms(3) obtain out where "NewPageImpl b = Some (out, b')" by auto
  from NewPageImpl_wf [OF assms(1,2) this] show ?thesis .
next
  case (CallDeletePage p)
  with assms(3) DeletePageImpl_wf [OF assms(1)] show ?thesis by auto
next
  case CallFlushAllPages
  with assms(3) FlushAllPagesImpl_wf [OF assms(1)] show ?thesis by auto
qed

lemma pool_calls_wf:
  "pool_wf n b \<Longrightarrow> n < 2 ^ 31 \<Longrightarrow> pool_calls b cs = Some b' \<Longrightarrow> pool_wf n b'"
proof (induction cs arbitrary: b)
  case Nil
  then show ?case by simp
next
  case (Cons c cs)
  from Cons.prems(3) obtain b1 where s: "pool_call_step b c = Some b1" and r: "pool_calls b1 cs = Some b'"
    by (auto split: option.splits)
  from Cons.IH [OF pool_call_step_wf [OF Cons.prems(1,2) s] Cons.prems(2) r] show ?case .
qed

text \<open>
  C9 as stated fails: in \<open>pool_one_unpinned\<close> page 0 is resident with pin count 0 and a clear
  dirty flag; \<open>UnpinPage(0, true)\<close> returns \<open>true\<close> but the dirty flag stays clear, where
  the claim has it become \<open>dirty \<or> is_dirty\<close>.
\<close>

theorem UnpinPage_unpinned_ignores_dirty:
  "pool_calls (BufferPoolManager_ctor 1 DiskManager_ctor) [CallNewPage, CallUnpinPage 0 False]
     = Some pool_one_unpinned
   \<and> page_table pool_one_unpinned 0 = Some 0
   \<and> pin_count (page_at pool_one_unpinned 0) = 0
   \<and> fst (UnpinPageImpl pool_one_unpinned 0 True) = True
   \<and> is_dirty (page_at (snd (UnpinPageImpl pool_one_unpinned 0 True)) 0)
        \<noteq> (is_dirty (page_at pool_one_unpinned 0) \<or> True)"
  using pool_one_unpinned_reached
  by (simp add: pool_eval pool_one_unpinned_def)

text \<open>
  C9, amended. In every state that a pool of fewer than \<open>2 ^ 31\<close> frames reaches from its
  constructor: for a page id that is not resident, \<open>UnpinPage\<close> returns \<open>false\<close> and changes
  nothing. For a page id resident in frame \<open>f\<close> it returns \<open>true\<close>; if the pin count is
  greater than 0 it ORs \<open>is_dirty\<close> into the frame's dirty flag, decrements the pin count and
  calls \<open>Replacer::Unpin\<close> on the frame when the count reaches 0, leaving the image, the page
  id, the other frames, the page table, the free list and the disk untouched; if the pin
  count is not greater than 0 it changes nothing at all, the dirty flag included.
\<close>

theorem UnpinPageImpl_behaviour:
  assumes "n < 2 ^ 31" and "pool_calls (BufferPoolManager_ctor n d) cs = Some b"
  shows
  "(page_table b p = None \<longrightarrow> UnpinPageImpl b p dirty = (False, b)) \<and>
   (\<forall>f. page_table b p = Some f \<longrightarrow>
      fst (UnpinPageImpl b p dirty) = True \<and>
      (if 0 < pin_count (page_at b f) then
         is_dirty (page_at (snd (UnpinPageImpl b p dirty)) f) = (is_dirty (page_at b f) \<or> dirty) \<and>
         pin_count (page_at (snd (UnpinPageImpl b p dirty)) f) = pin_count (page_at b f) - 1 \<and>
         data (page_at (snd (UnpinPageImpl b p dirty)) f) = data (page_at b f) \<and>
         page_id (page_at (snd (UnpinPageImpl b p dirty)) f) = page_id (page_at b f) \<and>
         replacer (snd (UnpinPageImpl b p dirty))
           = (if pin_count (page_at b f) = 1 then Unpin (replacer b) f else replacer b) \<and>
         (\<forall>g. g < length (pages b) \<and> g \<noteq> nat f \<longrightarrow>
              pages (snd (UnpinPageImpl b p dirty)) ! g = pages b ! g) \<and>
         page_table (snd (UnpinPageImpl b p dirty)) = page_table b \<and>
         free_list (snd (UnpinPageImpl b p dirty)) = free_list b \<and>
         disk_manager (snd (UnpinPageImpl b p dirty)) = disk_manager b
       else snd (UnpinPageImpl b p dirty) = b))"
proof -
  from pool_calls_wf [OF ctor_wf [OF assms(1)] assms(1,2)] have wf: "pool_wf n b" .
  have "page_table b p = None \<longrightarrow> UnpinPageImpl b p dirty = (False, b)"
    by (simp add: UnpinPageImpl_def)
  moreover have "\<forall>f. page_table b p = Some f \<longrightarrow>
      fst (UnpinPageImpl b p dirty) = True \<and>
      (if 0 < pin_count (page_at b f) then
         is_dirty (page_at (snd (UnpinPageImpl b p dirty)) f) = (is_dirty (page_at b f) \<or> dirty) \<and>
         pin_count (page_at (snd (UnpinPageImpl b p dirty)) f) = pin_count (page_at b f) - 1 \<and>
         data (page_at (snd (UnpinPageImpl b p dirty)) f) = data (page_at b f) \<and>
         page_id (page_at (snd (UnpinPageImpl b p dirty)) f) = page_id (page_at b f) \<and>
         replacer (snd (UnpinPageImpl b p dirty))
           = (if pin_count (page_at b f) = 1 then Unpin (replacer b) f else replacer b) \<and>
         (\<forall>g. g < length (pages b) \<and> g \<noteq> nat f \<longrightarrow>
              pages (snd (UnpinPageImpl b p dirty)) ! g = pages b ! g) \<and>
         page_table (snd (UnpinPageImpl b p dirty)) = page_table b \<and>
         free_list (snd (UnpinPageImpl b p dirty)) = free_list b \<and>
         disk_manager (snd (UnpinPageImpl b p dirty)) = disk_manager b
       else snd (UnpinPageImpl b p dirty) = b)"
  proof (intro allI impI)
    fix f
    assume r: "page_table b p = Some f"
    with wf have "nat f < length (pages b)" by (auto simp: pool_wf_def)
    with r show "fst (UnpinPageImpl b p dirty) = True \<and>
      (if 0 < pin_count (page_at b f) then
         is_dirty (page_at (snd (UnpinPageImpl b p dirty)) f) = (is_dirty (page_at b f) \<or> dirty) \<and>
         pin_count (page_at (snd (UnpinPageImpl b p dirty)) f) = pin_count (page_at b f) - 1 \<and>
         data (page_at (snd (UnpinPageImpl b p dirty)) f) = data (page_at b f) \<and>
         page_id (page_at (snd (UnpinPageImpl b p dirty)) f) = page_id (page_at b f) \<and>
         replacer (snd (UnpinPageImpl b p dirty))
           = (if pin_count (page_at b f) = 1 then Unpin (replacer b) f else replacer b) \<and>
         (\<forall>g. g < length (pages b) \<and> g \<noteq> nat f \<longrightarrow>
              pages (snd (UnpinPageImpl b p dirty)) ! g = pages b ! g) \<and>
         page_table (snd (UnpinPageImpl b p dirty)) = page_table b \<and>
         free_list (snd (UnpinPageImpl b p dirty)) = free_list b \<and>
         disk_manager (snd (UnpinPageImpl b p dirty)) = disk_manager b
       else snd (UnpinPageImpl b p dirty) = b)"
      by (auto simp: UnpinPageImpl_def page_at_def set_page_def GetPinCount_def Let_def)
  qed
  ultimately show ?thesis by blast
qed

theorem UnpinPageImpl_behaviour_witness:
  "(1::nat) < 2 ^ 31
   \<and> pool_calls (BufferPoolManager_ctor 1 DiskManager_ctor) [] = Some (BufferPoolManager_ctor 1 DiskManager_ctor)
   \<and> page_table (BufferPoolManager_ctor 1 DiskManager_ctor) 3 = None
   \<and> UnpinPageImpl (BufferPoolManager_ctor 1 DiskManager_ctor) 3 True
        = (False, BufferPoolManager_ctor 1 DiskManager_ctor)
   \<and> (2::nat) < 2 ^ 31
   \<and> pool_calls (BufferPoolManager_ctor 2 DiskManager_ctor) [CallNewPage, CallNewPage] = Some pool_two_pinned
   \<and> page_table pool_two_pinned 0 = Some 0
   \<and> fst (UnpinPageImpl pool_two_pinned 0 True) = True
   \<and> pin_count (page_at pool_two_pinned 0) = 1
   \<and> is_dirty (page_at (snd (UnpinPageImpl pool_two_pinned 0 True)) 0)
   \<and> pin_count (page_at (snd (UnpinPageImpl pool_two_pinned 0 True)) 0) = 0
   \<and> replacer (snd (UnpinPageImpl pool_two_pinned 0 True)) = Unpin (replacer pool_two_pinned) 0
   \<and> (1::nat) < length (pages pool_two_pinned) \<and> 1 \<noteq> nat 0
   \<and> pages (snd (UnpinPageImpl pool_two_pinned 0 True)) ! 1 = pages pool_two_pinned ! 1"
proof -
  let ?b = "BufferPoolManager_ctor 1 DiskManager_ctor"
  have n1: "(1::nat) < 2 ^ 31" and n2: "(2::nat) < 2 ^ 31" by simp_all
  have r1: "pool_calls ?b [] = Some ?b" by simp
  note r2 = pool_two_pinned_reached
  have h1: "page_table ?b 3 = None"
    by (simp add: BufferPoolManager_ctor_def)
  have h2: "page_table pool_two_pinned 0 = Some 0"
    by (simp add: pool_two_pinned_def)
  have pc: "pin_count (page_at pool_two_pinned 0) = 1" "\<not> is_dirty (page_at pool_two_pinned 0)"
    by (simp_all add: pool_two_pinned_def page_at_def)
  have h3: "(1::nat) < length (pages pool_two_pinned) \<and> 1 \<noteq> nat 0"
    by (simp add: pool_two_pinned_def)
  from UnpinPageImpl_behaviour [OF n1 r1, of 3 True] h1
  have c1: "UnpinPageImpl ?b 3 True = (False, ?b)" by blast
  from UnpinPageImpl_behaviour [OF n2 r2, of 0 True, THEN conjunct2, rule_format, OF h2]
  have c2: "fst (UnpinPageImpl pool_two_pinned 0 True) = True"
    and c3: "is_dirty (page_at (snd (UnpinPageImpl pool_two_pinned 0 True)) 0)"
    and c4: "pin_count (page_at (snd (UnpinPageImpl pool_two_pinned 0 True)) 0) = 0"
    and c5: "replacer (snd (UnpinPageImpl pool_two_pinned 0 True)) = Unpin (replacer pool_two_pinned) 0"
    and c6: "\<forall>g. g < length (pages pool_two_pinned) \<and> g \<noteq> nat 0 \<longrightarrow>
              pages (snd (UnpinPageImpl pool_two_pinned 0 True)) ! g = pages pool_two_pinned ! g"
    using pc by simp_all
  from c6 h3 have c7: "pages (snd (UnpinPageImpl pool_two_pinned 0 True)) ! 1 = pages pool_two_pinned ! 1"
    by blast
  from n1 r1 h1 c1 n2 r2 h2 c2 pc(1) c3 c4 c5 h3 c7 show ?thesis by blast
qed

section \<open>Properties of the linear probe hash table\<close>

lemmas table_eval = LinearProbeHashTable_ctor_def NumBlocks_def GetValue_def InternalInsert_def
  Remove_def Insert_def GetSize_def Resize_def block_slots_def empty_slot_def IsOccupied_def
  IsReadable_def KeyAt_def ValueAt_def BlockInsert_def BlockRemove_def
  GetValue_probe.simps InternalInsert_probe.simps Remove_probe.simps Insert_retry.simps
  readable_pairs_def

lemma full_table_reached:
  "table_calls 2 (LinearProbeHashTable_ctor 2 1 nat) [CallInsert 1 10, CallInsert 3 30] = Some full_table"
  by (simp add: table_eval full_table_def replicate_2 replicate_1 list_update_numeral)

lemma tombstone_table_reached:
  "table_calls 4 (LinearProbeHashTable_ctor 4 1 nat) [CallInsert 1 10, CallInsert 1 20, CallRemove 1 10]
     = Some tombstone_table"
  by (simp add: table_eval tombstone_table_def replicate_4 replicate_1 list_update_numeral)

lemma duplicate_table_reached:
  "table_calls 4 (LinearProbeHashTable_ctor 4 1 nat)
     [CallInsert 1 10, CallInsert 1 20, CallRemove 1 10, CallInsert 1 20] = Some duplicate_table"
  by (simp add: table_eval duplicate_table_def replicate_4 replicate_1 list_update_numeral)

text \<open>
  On \<open>full_table\<close> a probe that starts at slot 0 (\<open>hash_val = 0\<close>) never meets the "one
  circle" test: after the last slot \<open>block_ind * BLOCK_ARRAY_SIZE + offset\<close> is
  \<open>NumBlocks * BLOCK_ARRAY_SIZE\<close>, not 0, and the loop goes round again.
\<close>

lemma GetValue_probe_full_table:
  assumes "GetValue_probe B bs k hash_val block_ind offset result = Some y"
  shows "\<not> (B = 2 \<and> bs = blocks full_table \<and> k = 2 \<and> hash_val = 0 \<and> block_ind = 0
        \<and> offset < 2 \<and> result = [])"
proof (rule GetValue_probe.raw_induct [where P = "\<lambda>B bs k hash_val block_ind offset result y.
         \<not> (B = 2 \<and> bs = blocks full_table \<and> k = 2 \<and> hash_val = 0 \<and> block_ind = 0
        \<and> offset < 2 \<and> result = [])", OF _ assms], goal_cases)
  case (1 f B bs k hash_val block_ind offset result y)
  note IH = 1(1) and body = 1(2)
  show ?case
  proof
    assume a: "B = 2 \<and> bs = blocks full_table \<and> k = 2 \<and> hash_val = 0 \<and> block_ind = 0
        \<and> offset < 2 \<and> result = []"
    then consider "offset = 0" | "offset = 1" by linarith
    then show False
    proof cases
      case 1
      with a body have "f 2 (blocks full_table) 2 0 0 1 [] = Some y"
        by (simp add: full_table_def IsOccupied_def IsReadable_def KeyAt_def)
      from IH [OF this] show False by simp
    next
      case 2
      with a body have "f 2 (blocks full_table) 2 0 0 0 [] = Some y"
        by (simp add: full_table_def IsOccupied_def IsReadable_def KeyAt_def)
      from IH [OF this] show False by simp
    qed
  qed
qed

lemma InternalInsert_probe_full_table:
  assumes "InternalInsert_probe B bs k v hash_val block_ind offset = Some y"
  shows "\<not> (B = 2 \<and> bs = blocks full_table \<and> k = 2 \<and> hash_val = 0 \<and> block_ind = 0
        \<and> offset < 2)"
proof (rule InternalInsert_probe.raw_induct [where P = "\<lambda>B bs k v hash_val block_ind offset y.
         \<not> (B = 2 \<and> bs = blocks full_table \<and> k = 2 \<and> hash_val = 0 \<and> block_ind = 0
        \<and> offset < 2)", OF _ assms], goal_cases)
  case (1 f B bs k v hash_val block_ind offset y)
  note IH = 1(1) and body = 1(2)
  show ?case
  proof
    assume a: "B = 2 \<and> bs = blocks full_table \<and> k = 2 \<and> hash_val = 0 \<and> block_ind = 0
        \<and> offset < 2"
    then consider "offset = 0" | "offset = 1" by linarith
    then show False
    proof cases
      case 1
      with a body have "f 2 (blocks full_table) 2 v 0 0 1 = Some y"
        by (simp add: full_table_def BlockInsert_def KeyAt_def)
      from IH [OF this] show False by simp
    next
      case 2
      with a body have "f 2 (blocks full_table) 2 v 0 0 0 = Some y"
        by (simp add: full_table_def BlockInsert_def KeyAt_def)
      from IH [OF this] show False by simp
    qed
  qed
qed

lemma Remove_probe_full_table:
  assumes "Remove_probe B bs k v hash_val block_ind offset = Some y"
  shows "\<not> (B = 2 \<and> bs = blocks full_table \<and> k = 2 \<and> hash_val = 0 \<and> block_ind = 0
        \<and> offset < 2)"
proof (rule Remove_probe.raw_induct [where P = "\<lambda>B bs k v hash_val block_ind offset y.
         \<not> (B = 2 \<and> bs = blocks full_table \<and> k = 2 \<and> hash_val = 0 \<and> block_ind = 0
        \<and> offset < 2)", OF _ assms], goal_cases)
  case (1 f B bs k v hash_val block_ind offset y)
  note IH = 1(1) and body = 1(2)
  show ?case
  proof
    assume a: "B = 2 \<and> bs = blocks full_table \<and> k = 2 \<and> hash_val = 0 \<and> block_ind = 0
        \<and> offset < 2"
    then consider "offset = 0" | "offset = 1" by linarith
    then show False
    proof cases
      case 1
      with a body have "f 2 (blocks full_table) 2 v 0 0 1 = Some y"
        by (simp add: full_table_def IsOccupied_def KeyAt_def)
      from IH [OF this] show False by simp
    next
      case 2
      with a body have "f 2 (blocks full_table) 2 v 0 0 0 = Some y"
        by (simp add: full_table_def IsOccupied_def KeyAt_def)
      from IH [OF this] show False by simp
    qed
  qed
qed

lemma GetValue_full_table: "GetValue 2 full_table 2 [] = None"
proof (cases "GetValue_probe 2 (blocks full_table) 2 0 0 0 []")
  case None
  then show ?thesis by (simp add: GetValue_def NumBlocks_def full_table_def)
next
  case (Some y)
  from GetValue_probe_full_table [OF this] show ?thesis by simp
qed

lemma InternalInsert_full_table: "InternalInsert 2 full_table 2 v = None"
proof (cases "InternalInsert_probe 2 (blocks full_table) 2 v 0 0 0")
  case None
  then show ?thesis by (simp add: InternalInsert_def NumBlocks_def full_table_def)
next
  case (Some y)
  from InternalInsert_probe_full_table [OF this] show ?thesis by simp
qed

lemma Remove_full_table: "Remove 2 full_table 2 v = None"
proof (cases "Remove_probe 2 (blocks full_table) 2 v 0 0 0")
  case None
  then show ?thesis by (simp add: Remove_def NumBlocks_def full_table_def)
next
  case (Some y)
  from Remove_probe_full_table [OF this] show ?thesis by simp
qed

lemma Insert_full_table: "Insert 2 full_table 2 v = None"
  unfolding Insert_def by (subst Insert_retry.simps) (simp add: InternalInsert_full_table)

text \<open>
  From every starting slot other than slot 0 the three probe loops return: the "one circle"
  test is met after at most \<open>NumBlocks * BLOCK_ARRAY_SIZE\<close> slots.
\<close>

lemma probe_left_next_block:
  assumes "block_ind < N" "offset < B" "0 < hash_val" "hash_val < N * B"
    and "block_ind * B + (offset + 1) \<noteq> hash_val" "B \<le> offset + 1"
  shows "(block_ind + 1) mod N < N"
    and "probe_left B N hash_val ((block_ind + 1) mod N) 0 < probe_left B N hash_val block_ind offset"
proof -
  from assms(1) show "(block_ind + 1) mod N < N" by simp
  from assms(2,6) have off: "offset + 1 = B" by simp
  have le: "block_ind * B + B \<le> N * B"
    using mult_le_mono1 [of "Suc block_ind" N B] assms(1) by simp
  show "probe_left B N hash_val ((block_ind + 1) mod N) 0 < probe_left B N hash_val block_ind offset"
  proof (cases "block_ind + 1 < N")
    case True
    then have "(block_ind + 1) mod N = block_ind + 1" by simp
    moreover have "(block_ind + 1) * B = block_ind * B + B" by (simp add: algebra_simps)
    ultimately show ?thesis
      using off le assms(3,4,5) unfolding probe_left_def by (auto split: if_splits)
  next
    case False
    with assms(1) have e: "block_ind + 1 = N" by simp
    then have "(block_ind + 1) mod N = 0" by simp
    moreover from e have "N * B = block_ind * B + B" by (simp add: algebra_simps flip: e)
    ultimately show ?thesis
      using off assms(3,4,5) unfolding probe_left_def by (auto split: if_splits)
  qed
qed

lemma probe_left_next_offset:
  assumes "block_ind < N" "offset < B" "0 < hash_val" "hash_val < N * B"
    and "block_ind * B + (offset + 1) \<noteq> hash_val" "\<not> B \<le> offset + 1"
  shows "probe_left B N hash_val block_ind (offset + 1) < probe_left B N hash_val block_ind offset"
proof -
  have le: "block_ind * B + B \<le> N * B"
    using mult_le_mono1 [of "Suc block_ind" N B] assms(1) by simp
  show ?thesis
    using le assms(2-6) unfolding probe_left_def by (auto split: if_splits)
qed

lemma GetValue_probe_returns:
  assumes "length bs = N" "0 < hash_val" "hash_val < N * B" "block_ind < N" "offset < B"
    and "probe_left B N hash_val block_ind offset = m"
  shows "\<exists>y. GetValue_probe B bs k hash_val block_ind offset result = Some y"
  using assms
proof (induction m arbitrary: block_ind offset result rule: less_induct)
  case (less m)
  let ?res = "if IsReadable (bs ! block_ind) offset \<and> KeyAt (bs ! block_ind) offset = k
              then result @ [ValueAt (bs ! block_ind) offset] else result"
  show ?case
  proof (cases "IsOccupied (bs ! block_ind) offset \<and> block_ind * B + (offset + 1) \<noteq> hash_val")
    case False
    then show ?thesis by (subst GetValue_probe.simps) auto
  next
    case True
    then have occ: "IsOccupied (bs ! block_ind) offset"
      and ne: "block_ind * B + (offset + 1) \<noteq> hash_val" by simp_all
    show ?thesis
    proof (cases "B \<le> offset + 1")
      case True
      from probe_left_next_block [OF less.prems(4,5,2,3) ne True]
      have b: "(block_ind + 1) mod N < N"
        and d: "probe_left B N hash_val ((block_ind + 1) mod N) 0 < probe_left B N hash_val block_ind offset"
        by simp_all
      from less.prems(5) have B0: "0 < B" by simp
      from less.IH [OF _ less.prems(1,2,3) b B0 refl, of ?res] d less.prems(6)
      obtain y where "GetValue_probe B bs k hash_val ((block_ind + 1) mod N) 0 ?res = Some y" by auto
      with occ ne True less.prems(1) show ?thesis
        by (subst GetValue_probe.simps) simp
    next
      case False
      from probe_left_next_offset [OF less.prems(4,5,2,3) ne False]
      have d: "probe_left B N hash_val block_ind (offset + 1) < probe_left B N hash_val block_ind offset" .
      from False have o: "offset + 1 < B" by simp
      from less.IH [OF _ less.prems(1,2,3,4) o refl, of ?res] d less.prems(6)
      obtain y where "GetValue_probe B bs k hash_val block_ind (offset + 1) ?res = Some y" by auto
      with occ ne False show ?thesis
        by (subst GetValue_probe.simps) simp
    qed
  qed
qed

lemma Remove_probe_returns:
  assumes "length bs = N" "0 < hash_val" "hash_val < N * B" "block_ind < N" "offset < B"
    and "probe_left B N hash_val block_ind offset = m"
  shows "\<exists>y. Remove_probe B bs k v hash_val block_ind offset = Some y"
  using assms
proof (induction m arbitrary: block_ind offset rule: less_induct)
  case (less m)
  show ?case
  proof (cases "IsOccupied (bs ! block_ind) offset
                 \<and> \<not> (KeyAt (bs ! block_ind) offset = k \<and> ValueAt (bs ! block_ind) offset = v)
                 \<and> block_ind * B + (offset + 1) \<noteq> hash_val")
    case False
    then show ?thesis by (subst Remove_probe.simps) auto
  next
    case True
    then have occ: "IsOccupied (bs ! block_ind) offset"
      and nm: "\<not> (KeyAt (bs ! block_ind) offset = k \<and> ValueAt (bs ! block_ind) offset = v)"
      and ne: "block_ind * B + (offset + 1) \<noteq> hash_val" by simp_all
    show ?thesis
    proof (cases "B \<le> offset + 1")
      case True
      from probe_left_next_block [OF less.prems(4,5,2,3) ne True]
      have b: "(block_ind + 1) mod N < N"
        and d: "probe_left B N hash_val ((block_ind + 1) mod N) 0 < probe_left B N hash_val block_ind offset"
        by simp_all
      from less.prems(5) have B0: "0 < B" by simp
      from less.IH [OF _ less.prems(1,2,3) b B0 refl] d less.prems(6)
      obtain y where "Remove_probe B bs k v hash_val ((block_ind + 1) mod N) 0 = Some y" by auto
      with occ nm ne True less.prems(1) show ?thesis
        by (subst Remove_probe.simps) auto
    next
      case False
      from probe_left_next_offset [OF less.prems(4,5,2,3) ne False]
      have d: "probe_left B N hash_val block_ind (offset + 1) < probe_left B N hash_val block_ind offset" .
      from False have o: "offset + 1 < B" by simp
      from less.IH [OF _ less.prems(1,2,3,4) o refl] d less.prems(6)
      obtain y where "Remove_probe B bs k v hash_val block_ind (offset + 1) = Some y" by auto
      with occ nm ne False show ?thesis
        by (subst Remove_probe.simps) auto
    qed
  qed
qed

lemma InternalInsert_probe_returns:
  assumes "length bs = N" "0 < hash_val" "hash_val < N * B" "block_ind < N" "offset < B"
    and "probe_left B N hash_val block_ind offset = m"
  shows "\<exists>y. InternalInsert_probe B bs k v hash_val block_ind offset = Some y"
  using assms
proof (induction m arbitrary: block_ind offset rule: less_induct)
  case (less m)
  show ?case
  proof (cases "\<not> fst (BlockInsert (bs ! block_ind) offset k v)
                 \<and> \<not> (KeyAt (bs ! block_ind) offset = k \<and> ValueAt (bs ! block_ind) offset = v)
                 \<and> block_ind * B + (offset + 1) \<noteq> hash_val")
    case False
    then show ?thesis by (subst InternalInsert_probe.simps) auto
  next
    case True
    then have occ: "\<not> fst (BlockInsert (bs ! block_ind) offset k v)"
      and nm: "\<not> (KeyAt (bs ! block_ind) offset = k \<and> ValueAt (bs ! block_ind) offset = v)"
      and ne: "block_ind * B + (offset + 1) \<noteq> hash_val" by simp_all
    show ?thesis
    proof (cases "B \<le> offset + 1")
      case True
      from probe_left_next_block [OF less.prems(4,5,2,3) ne True]
      have b: "(block_ind + 1) mod N < N"
        and d: "probe_left B N hash_val ((block_ind + 1) mod N) 0 < probe_left B N hash_val block_ind offset"
        by simp_all
      from less.prems(5) have B0: "0 < B" by simp
      from less.IH [OF _ less.prems(1,2,3) b B0 refl] d less.prems(6)
      obtain y where "InternalInsert_probe B bs k v hash_val ((block_ind + 1) mod N) 0 = Some y" by auto
      with occ nm ne True less.prems(1) show ?thesis
        by (subst InternalInsert_probe.simps) auto
    next
      case False
      from probe_left_next_offset [OF less.prems(4,5,2,3) ne False]
      have d: "probe_left B N hash_val block_ind (offset + 1) < probe_left B N hash_val block_ind offset" .
      from False have o: "offset + 1 < B" by simp
      from less.IH [OF _ less.prems(1,2,3,4) o refl] d less.prems(6)
      obtain y where "InternalInsert_probe B bs k v hash_val block_ind (offset + 1) = Some y" by auto
      with occ nm ne False show ?thesis
        by (subst InternalInsert_probe.simps) auto
    qed
  qed
qed

lemma start_slot_in_range:
  assumes "hash_val < N * (B::nat)"
  shows "hash_val div B < N" and "hash_val mod B < B"
proof -
  from assms have B0: "0 < B" by (cases B) simp_all
  from assms show "hash_val div B < N" by (simp add: less_mult_imp_div_less)
  from B0 show "hash_val mod B < B" by simp
qed

lemma probes_return_unless_start_0:
  assumes "0 < NumBlocks t * B" "hash_fn t k mod (NumBlocks t * B) \<noteq> 0"
  shows "GetValue B t k result \<noteq> None" and "Remove B t k v \<noteq> None" and "InternalInsert B t k v \<noteq> None"
proof -
  let ?N = "NumBlocks t"
  let ?h = "hash_fn t k mod (?N * B)"
  have l: "length (blocks t) = ?N" by (simp add: NumBlocks_def)
  from assms have h0: "0 < ?h" and h1: "?h < ?N * B" by simp_all
  note r = start_slot_in_range [OF h1]
  from GetValue_probe_returns [OF l h0 h1 r refl, of k result] assms(1)
  show "GetValue B t k result \<noteq> None" by (auto simp: GetValue_def)
  from Remove_probe_returns [OF l h0 h1 r refl, of k v] assms(1)
  show "Remove B t k v \<noteq> None" by (auto simp: Remove_def)
  from InternalInsert_probe_returns [OF l h0 h1 r refl, of k v] assms(1)
  show "InternalInsert B t k v \<noteq> None" by (auto simp: InternalInsert_def)
qed

text \<open>
  C4, evaluated where the code departs from it. With one block of two slots and
  \<open>hash(k) = k\<close>, \<open>Insert(1, 10)\<close> and \<open>Insert(3, 30)\<close> fill the table. Key 2 hashes to slot 0, the
  start of block 0. From there \<open>GetValue(2)\<close>, \<open>Remove(2, 20)\<close>, the internal insert of
  (2, 20) and therefore \<open>Insert(2, 20)\<close> do not return: the probe loops never leave, and
  \<open>Insert\<close> never reaches \<open>Resize\<close>.
\<close>

theorem probe_from_slot_0_diverges:
  "table_calls 2 (LinearProbeHashTable_ctor 2 1 nat) [CallInsert 1 10, CallInsert 3 30] = Some full_table
   \<and> hash_fn full_table 2 mod (NumBlocks full_table * 2) = 0
   \<and> GetValue 2 full_table 2 [] = None
   \<and> Remove 2 full_table 2 20 = None
   \<and> InternalInsert 2 full_table 2 20 = None
   \<and> Insert 2 full_table 2 20 = None"
  using full_table_reached GetValue_full_table Remove_full_table [of 20]
    InternalInsert_full_table [of 20] Insert_full_table [of 20]
  by (simp add: full_table_def NumBlocks_def)

text \<open>
  On a well-formed table whose readable pairs are pairwise distinct, \<open>Resize(GetSize())\<close>
  returns and keeps the multiset of readable pairs: the blocks are seen as one flat list of
  slots, the internal insert claims the first slot that is not readable (there is one, since
  the new table has twice the slots), and no moved pair is rejected as a duplicate.
\<close>

lemma blocks_wf_Cons [simp]: "blocks_wf B (b # bs) \<longleftrightarrow> length b = B \<and> blocks_wf B bs"
  by (simp add: blocks_wf_def)

lemma blocks_wf_Nil [simp]: "blocks_wf B []"
  by (simp add: blocks_wf_def)

lemma length_concat_blocks: "blocks_wf B bs \<Longrightarrow> length (concat bs) = length bs * B"
  by (induction bs) simp_all

lemma concat_nth_block:
  "blocks_wf B bs \<Longrightarrow> bi < length bs \<Longrightarrow> off < B \<Longrightarrow> concat bs ! (bi * B + off) = bs ! bi ! off"
proof (induction bs arbitrary: bi)
  case Nil
  then show ?case by simp
next
  case (Cons b bs)
  show ?case
  proof (cases bi)
    case 0
    with Cons.prems show ?thesis by (simp add: nth_append)
  next
    case (Suc j)
    with Cons.prems have "concat bs ! (j * B + off) = bs ! j ! off"
      by (intro Cons.IH) simp_all
    moreover have "Suc j * B + off = length b + (j * B + off)"
      using Cons.prems by simp
    ultimately show ?thesis using Suc by (simp only: concat.simps nth_append_length_plus nth_Cons_Suc)
  qed
qed

lemma concat_update_block:
  "blocks_wf B bs \<Longrightarrow> bi < length bs \<Longrightarrow> off < B \<Longrightarrow>
   concat (bs[bi := (bs ! bi)[off := s]]) = (concat bs)[bi * B + off := s]"
proof (induction bs arbitrary: bi)
  case Nil
  then show ?case by simp
next
  case (Cons b bs)
  show ?case
  proof (cases bi)
    case 0
    with Cons.prems show ?thesis by (simp add: list_update_append)
  next
    case (Suc j)
    with Cons.prems have "concat (bs[j := (bs ! j)[off := s]]) = (concat bs)[j * B + off := s]"
      by (intro Cons.IH) simp_all
    with Suc Cons.prems show ?thesis by (simp add: list_update_append)
  qed
qed

lemma blocks_wf_update:
  "blocks_wf B bs \<Longrightarrow> length b = B \<Longrightarrow> blocks_wf B (bs[bi := b])"
  unfolding blocks_wf_def list_all_iff by (auto dest: set_update_subset_insert [THEN subsetD])

lemma blocks_wf_nth: "blocks_wf B bs \<Longrightarrow> bi < length bs \<Longrightarrow> length (bs ! bi) = B"
  by (simp add: blocks_wf_def list_all_length)

lemma live_pairs_update:
  "i < length ss \<Longrightarrow> \<not> readable (ss ! i) \<Longrightarrow> readable s \<Longrightarrow>
   mset (live_pairs (ss[i := s])) = mset (live_pairs ss) + {#slot_pair s#}"
proof (induction ss arbitrary: i)
  case Nil
  then show ?case by simp
next
  case (Cons x xs)
  show ?case
  proof (cases i)
    case 0
    with Cons.prems show ?thesis by (simp add: live_pairs_def)
  next
    case (Suc j)
    with Cons.prems have "mset (live_pairs (xs[j := s])) = mset (live_pairs xs) + {#slot_pair s#}"
      by (intro Cons.IH) simp_all
    with Suc show ?thesis by (simp add: live_pairs_def)
  qed
qed

lemma unreadable_slot_exists:
  assumes "length (filter readable ss) < length ss"
  shows "\<exists>q < length ss. \<not> readable (ss ! q)"
proof (rule ccontr)
  assume "\<not> (\<exists>q < length ss. \<not> readable (ss ! q))"
  then have "\<forall>x \<in> set ss. readable x" by (auto simp: in_set_conv_nth)
  then have "filter readable ss = ss" by simp
  with assms show False by simp
qed

lemma cursor_next_block:
  assumes "bi < N" "off < B" "B \<le> off + 1"
  shows "(bi + 1) mod N * B = (bi * B + off + 1) mod (N * (B::nat))"
proof -
  from assms(2,3) have off: "off + 1 = B" by simp
  then have e: "bi * B + off + 1 = (bi + 1) * B" by (simp add: algebra_simps)
  show ?thesis
  proof (cases "bi + 1 < N")
    case True
    moreover have "0 < B" using assms(2) by simp
    ultimately have "(bi + 1) * B < N * B" by (simp only: mult_less_cancel2)
    with True e show ?thesis by simp
  next
    case False
    with assms(1) have n: "bi + 1 = N" by simp
    have "(bi * B + off + 1) mod (N * B) = (N * B) mod (N * B)"
      by (simp only: e n)
    then show ?thesis using n by simp
  qed
qed

lemma cursor_next_offset:
  assumes "bi < N" "off + 1 < B"
  shows "bi * B + (off + 1) = (bi * B + off + 1) mod (N * (B::nat))"
proof -
  have "bi * B + B \<le> N * B"
    using mult_le_mono1 [of "Suc bi" N B] assms(1) by simp
  with assms(2) have "bi * B + off + 1 < N * B" by linarith
  then show ?thesis by simp
qed

lemma cursor_flat_less:
  assumes "bi < N" "off < B"
  shows "bi * B + off < N * (B::nat)"
proof -
  have "bi * B + B \<le> N * B"
    using mult_le_mono1 [of "Suc bi" N B] assms(1) by simp
  with assms(2) show ?thesis by linarith
qed

lemma InternalInsert_probe_claims:
  assumes "blocks_wf B bs" "length bs = N" "bi < N" "off < B"
    and "\<not> readable (concat bs ! ((bi * B + off + d) mod (N * B)))"
    and "\<forall>j<d. (bi * B + off + j) mod (N * B) + 1 \<noteq> hash_val"
    and "(k, v) \<notin> set (live_pairs (concat bs))"
  shows "\<exists>bs'. InternalInsert_probe B bs k v hash_val bi off = Some (Inserted, bs')
            \<and> blocks_wf B bs' \<and> length bs' = N
            \<and> mset (live_pairs (concat bs')) = mset (live_pairs (concat bs)) + {#(k, v)#}"
  using assms(3-6)
proof (induction d arbitrary: bi off)
  case 0
  have p: "bi * B + off < N * B" by (rule cursor_flat_less [OF "0.prems"(1,2)])
  have s: "concat bs ! (bi * B + off) = bs ! bi ! off"
    using concat_nth_block [OF assms(1)] "0.prems"(1,2) assms(2) by simp
  from "0.prems"(3) p s have nr: "\<not> readable (bs ! bi ! off)" by simp
  let ?new = "\<lparr>occupied = True, readable = True, key = k, val = v\<rparr>"
  let ?bs' = "bs[bi := (bs ! bi)[off := ?new]]"
  have r: "InternalInsert_probe B bs k v hash_val bi off = Some (Inserted, ?bs')"
    by (subst InternalInsert_probe.simps) (simp add: BlockInsert_def nr)
  have c: "concat ?bs' = (concat bs)[bi * B + off := ?new]"
    using concat_update_block [OF assms(1)] "0.prems"(1,2) assms(2) by simp
  have "mset (live_pairs (concat ?bs')) = mset (live_pairs (concat bs)) + {#slot_pair ?new#}"
    unfolding c using p nr s length_concat_blocks [OF assms(1)] assms(2)
    by (intro live_pairs_update) simp_all
  moreover have "blocks_wf B ?bs'"
    using blocks_wf_nth [OF assms(1)] "0.prems"(1) assms(2)
    by (intro blocks_wf_update [OF assms(1)]) simp
  ultimately show ?case using r assms(2) by (simp add: slot_pair_def)
next
  case (Suc d)
  have p: "bi * B + off < N * B" by (rule cursor_flat_less [OF Suc.prems(1,2)])
  have s: "concat bs ! (bi * B + off) = bs ! bi ! off"
    using concat_nth_block [OF assms(1)] Suc.prems(1,2) assms(2) by simp
  show ?case
  proof (cases "readable (bs ! bi ! off)")
    case False
    note nr = this
    let ?new = "\<lparr>occupied = True, readable = True, key = k, val = v\<rparr>"
    let ?bs' = "bs[bi := (bs ! bi)[off := ?new]]"
    have r: "InternalInsert_probe B bs k v hash_val bi off = Some (Inserted, ?bs')"
      by (subst InternalInsert_probe.simps) (simp add: BlockInsert_def nr)
    have c: "concat ?bs' = (concat bs)[bi * B + off := ?new]"
      using concat_update_block [OF assms(1)] Suc.prems(1,2) assms(2) by simp
    have "mset (live_pairs (concat ?bs')) = mset (live_pairs (concat bs)) + {#slot_pair ?new#}"
      unfolding c using p nr s length_concat_blocks [OF assms(1)] assms(2)
      by (intro live_pairs_update) simp_all
    moreover have "blocks_wf B ?bs'"
      using blocks_wf_nth [OF assms(1)] Suc.prems(1) assms(2)
      by (intro blocks_wf_update [OF assms(1)]) simp
    ultimately show ?thesis using r assms(2) by (simp add: slot_pair_def)
  next
    case True
    note rd = this
    have "concat bs ! (bi * B + off) \<in> set (concat bs)"
      using p length_concat_blocks [OF assms(1)] assms(2) by (intro nth_mem) simp
    with rd s have "slot_pair (bs ! bi ! off) \<in> set (live_pairs (concat bs))"
      by (auto simp: live_pairs_def)
    with assms(7) have nd: "\<not> (KeyAt (bs ! bi) off = k \<and> ValueAt (bs ! bi) off = v)"
      by (auto simp: slot_pair_def KeyAt_def ValueAt_def)
    from Suc.prems(4) [rule_format, of 0] p have ne: "bi * B + (off + 1) \<noteq> hash_val" by simp
    have fail: "\<not> fst (BlockInsert (bs ! bi) off k v)" by (simp add: BlockInsert_def rd)
    show ?thesis
    proof (cases "B \<le> off + 1")
      case True
      let ?bi' = "(bi + 1) mod N"
      have flat: "?bi' * B + 0 = (bi * B + off + 1) mod (N * B)"
        using cursor_next_block [OF Suc.prems(1,2) True] by simp
      have b: "?bi' < N" using Suc.prems(1) by simp
      have B0: "0 < B" using Suc.prems(2) by simp
      have t: "\<not> readable (concat bs ! ((?bi' * B + 0 + d) mod (N * B)))"
      proof -
        have "(?bi' * B + 0 + d) mod (N * B) = ((bi * B + off + 1) mod (N * B) + d) mod (N * B)"
          by (simp only: flat)
        also have "\<dots> = (bi * B + off + Suc d) mod (N * B)" by (simp add: mod_simps)
        finally show ?thesis using Suc.prems(3) by simp
      qed
      have c: "\<forall>j<d. (?bi' * B + 0 + j) mod (N * B) + 1 \<noteq> hash_val"
      proof (intro allI impI)
        fix j assume "j < d"
        then have "Suc j < Suc d" by simp
        from Suc.prems(4) [rule_format, OF this]
        have "(bi * B + off + Suc j) mod (N * B) + 1 \<noteq> hash_val" .
        moreover have "(?bi' * B + 0 + j) mod (N * B) = ((bi * B + off + 1) mod (N * B) + j) mod (N * B)"
          by (simp only: flat)
        moreover have "\<dots> = (bi * B + off + Suc j) mod (N * B)" by (simp add: mod_simps)
        ultimately show "(?bi' * B + 0 + j) mod (N * B) + 1 \<noteq> hash_val" by simp
      qed
      from Suc.IH [OF b B0 t c] obtain bs' where
        "InternalInsert_probe B bs k v hash_val ?bi' 0 = Some (Inserted, bs')"
        "blocks_wf B bs'" "length bs' = N"
        "mset (live_pairs (concat bs')) = mset (live_pairs (concat bs)) + {#(k, v)#}" by blast
      moreover have "InternalInsert_probe B bs k v hash_val bi off
                       = InternalInsert_probe B bs k v hash_val ?bi' 0"
        by (subst InternalInsert_probe.simps) (use fail nd ne True assms(2) in auto)
      ultimately show ?thesis by auto
    next
      case False
      then have o: "off + 1 < B" by simp
      have flat: "bi * B + (off + 1) = (bi * B + off + 1) mod (N * B)"
        by (rule cursor_next_offset [OF Suc.prems(1) o])
      have t: "\<not> readable (concat bs ! ((bi * B + (off + 1) + d) mod (N * B)))"
      proof -
        have e: "bi * B + (off + 1) + d = bi * B + off + Suc d" by simp
        show ?thesis unfolding e by (rule Suc.prems(3))
      qed
      have c: "\<forall>j<d. (bi * B + (off + 1) + j) mod (N * B) + 1 \<noteq> hash_val"
      proof (intro allI impI)
        fix j assume "j < d"
        then have "Suc j < Suc d" by simp
        from Suc.prems(4) [rule_format, OF this]
        have n: "(bi * B + off + Suc j) mod (N * B) + 1 \<noteq> hash_val" .
        have e: "bi * B + (off + 1) + j = bi * B + off + Suc j" by simp
        show "(bi * B + (off + 1) + j) mod (N * B) + 1 \<noteq> hash_val" unfolding e by (rule n)
      qed
      from Suc.IH [OF Suc.prems(1) o t c] obtain bs' where
        "InternalInsert_probe B bs k v hash_val bi (off + 1) = Some (Inserted, bs')"
        "blocks_wf B bs'" "length bs' = N"
        "mset (live_pairs (concat bs')) = mset (live_pairs (concat bs)) + {#(k, v)#}" by blast
      moreover have "InternalInsert_probe B bs k v hash_val bi off
                       = InternalInsert_probe B bs k v hash_val bi (off + 1)"
        by (subst InternalInsert_probe.simps) (use fail nd ne False in auto)
      ultimately show ?thesis by auto
    qed
  qed
qed

lemma readable_pairs_live: "readable_pairs t = mset (live_pairs (concat (blocks t)))"
proof -
  have "slot_pair = (\<lambda>s. (key s, val s))" by (simp add: fun_eq_iff slot_pair_def)
  then show ?thesis by (simp only: readable_pairs_def live_pairs_def)
qed

lemma size_readable_pairs: "size (readable_pairs t) = length (filter readable (concat (blocks t)))"
  by (simp only: readable_pairs_live size_mset live_pairs_def length_map)

lemma probe_first_cycle:
  assumes "hash_val < M" "d < M" "j < d"
  shows "(hash_val + j) mod M + 1 \<noteq> (hash_val::nat)"
proof (cases "hash_val + j < M")
  case True
  then show ?thesis by simp
next
  case False
  with assms have "(hash_val + j) mod M = hash_val + j - M"
    by (simp add: mod_if)
  with False assms show ?thesis by simp
qed

lemma InternalInsert_claims:
  assumes "table_wf B t"
    and "length (filter readable (concat (blocks t))) < NumBlocks t * B"
    and "(k, v) \<notin> set (live_pairs (concat (blocks t)))"
  shows "\<exists>t'. InternalInsert B t k v = Some (Inserted, t') \<and> table_wf B t'
            \<and> NumBlocks t' = NumBlocks t \<and> hash_fn t' = hash_fn t
            \<and> readable_pairs t' = readable_pairs t + {#(k, v)#}"
proof -
  let ?N = "NumBlocks t"
  let ?M = "?N * B"
  let ?h = "hash_fn t k mod ?M"
  from assms(1) have B0: "0 < B" and N0: "0 < ?N" and wf: "blocks_wf B (blocks t)"
    by (simp_all add: table_wf_def)
  then have M0: "0 < ?M" by simp
  then have h: "?h < ?M" by simp
  have len: "length (concat (blocks t)) = ?M"
    using length_concat_blocks [OF wf] by (simp add: NumBlocks_def)
  from unreadable_slot_exists [of "concat (blocks t)"] assms(2) len
  obtain q where q: "q < ?M" "\<not> readable (concat (blocks t) ! q)" by auto
  define d where "d = (q + (?M - ?h)) mod ?M"
  have d: "d < ?M" unfolding d_def using M0 by simp
  have start: "?h div B * B + ?h mod B = ?h" by simp
  have "(?h + d) mod ?M = (?h + (q + (?M - ?h))) mod ?M"
    unfolding d_def by (simp add: mod_simps)
  also have "?h + (q + (?M - ?h)) = q + ?M" using h by simp
  also have "(q + ?M) mod ?M = q" using q(1) by simp
  finally have e: "(?h + d) mod ?M = q" .
  have tgt: "\<not> readable (concat (blocks t) ! ((?h div B * B + ?h mod B + d) mod ?M))"
    unfolding start e by (rule q(2))
  have chk: "\<forall>j<d. (?h div B * B + ?h mod B + j) mod ?M + 1 \<noteq> ?h"
    unfolding start using probe_first_cycle [OF h d] by blast
  have r: "?h div B < ?N" "?h mod B < B"
    using start_slot_in_range [OF h] by simp_all
  have l: "length (blocks t) = ?N" by (simp add: NumBlocks_def)
  from InternalInsert_probe_claims [OF wf l r tgt chk assms(3)]
  obtain bs' where bs': "InternalInsert_probe B (blocks t) k v ?h (?h div B) (?h mod B) = Some (Inserted, bs')"
    "blocks_wf B bs'" "length bs' = ?N"
    "mset (live_pairs (concat bs')) = mset (live_pairs (concat (blocks t))) + {#(k, v)#}"
    by blast
  let ?t' = "t\<lparr>blocks := bs'\<rparr>"
  from bs'(1) M0 have "InternalInsert B t k v = Some (Inserted, ?t')"
    by (simp add: InternalInsert_def)
  moreover have "table_wf B ?t'" using bs'(2,3) B0 N0 by (simp add: table_wf_def NumBlocks_def)
  moreover have "NumBlocks ?t' = ?N" using bs'(3) by (simp add: NumBlocks_def)
  moreover have "readable_pairs ?t' = readable_pairs t + {#(k, v)#}"
    using bs'(4) by (simp add: readable_pairs_live)
  ultimately show ?thesis by auto
qed

lemma Resize_move_all:
  assumes "table_wf B t"
    and "size (readable_pairs t) + length (filter readable ss) \<le> NumBlocks t * B"
    and "distinct (live_pairs ss)"
    and "\<forall>p \<in> set (live_pairs ss). p \<notin># readable_pairs t"
  shows "\<exists>t'. Resize_move B ss t = Some t' \<and> table_wf B t' \<and> NumBlocks t' = NumBlocks t
            \<and> hash_fn t' = hash_fn t
            \<and> readable_pairs t' = readable_pairs t + mset (live_pairs ss)"
  using assms
proof (induction ss arbitrary: t)
  case Nil
  then show ?case by (simp add: live_pairs_def)
next
  case (Cons s ss)
  show ?case
  proof (cases "readable s")
    case False
    with Cons.prems have "\<exists>t'. Resize_move B ss t = Some t' \<and> table_wf B t' \<and> NumBlocks t' = NumBlocks t
            \<and> hash_fn t' = hash_fn t
            \<and> readable_pairs t' = readable_pairs t + mset (live_pairs ss)"
      by (intro Cons.IH) (simp_all add: live_pairs_def)
    with False show ?thesis by (simp add: live_pairs_def)
  next
    case True
    note sz = size_readable_pairs [of t]
    with Cons.prems(2) True have room: "length (filter readable (concat (blocks t))) < NumBlocks t * B"
      by simp
    from Cons.prems(4) True have "(key s, val s) \<notin># readable_pairs t"
      by (simp add: live_pairs_def slot_pair_def)
    then have fresh: "(key s, val s) \<notin> set (live_pairs (concat (blocks t)))"
      by (simp add: readable_pairs_live)
    from InternalInsert_claims [OF Cons.prems(1) room fresh]
    obtain t1 where t1: "InternalInsert B t (key s) (val s) = Some (Inserted, t1)" "table_wf B t1"
      "NumBlocks t1 = NumBlocks t" "hash_fn t1 = hash_fn t"
      "readable_pairs t1 = readable_pairs t + {#(key s, val s)#}" by blast
    have a2: "size (readable_pairs t1) + length (filter readable ss) \<le> NumBlocks t1 * B"
      using Cons.prems(2) True t1(3,5) by simp
    have a3: "distinct (live_pairs ss)"
      using Cons.prems(3) True by (simp add: live_pairs_def)
    have a4: "\<forall>p \<in> set (live_pairs ss). p \<notin># readable_pairs t1"
    proof
      fix p assume p: "p \<in> set (live_pairs ss)"
      from Cons.prems(3) True have "slot_pair s \<notin> set (live_pairs ss)"
        by (simp add: live_pairs_def)
      with p have "p \<noteq> (key s, val s)" by (auto simp: slot_pair_def)
      moreover from Cons.prems(4) p True have "p \<notin># readable_pairs t"
        by (auto simp: live_pairs_def)
      ultimately show "p \<notin># readable_pairs t1" using t1(5) by simp
    qed
    from Cons.IH [OF t1(2) a2 a3 a4] obtain t' where
      "Resize_move B ss t1 = Some t'" "table_wf B t'" "NumBlocks t' = NumBlocks t1"
      "hash_fn t' = hash_fn t1" "readable_pairs t' = readable_pairs t1 + mset (live_pairs ss)"
      by blast
    with t1 True show ?thesis by (simp add: live_pairs_def slot_pair_def)
  qed
qed

lemma block_slots_wf: "blocks_wf B bs \<Longrightarrow> concat (map (block_slots B) bs) = concat bs"
proof (induction bs)
  case Nil
  then show ?case by simp
next
  case (Cons b bs)
  then have "length b = B" by simp
  then have "map (\<lambda>offset. b ! offset) [0..<B] = b" by (metis map_nth)
  then have "block_slots B b = b" by (simp only: block_slots_def)
  with Cons show ?case by simp
qed

lemma ctor_empty:
  "filter readable (concat (replicate n (replicate B empty_slot))) = []"
  by (induction n) (simp_all add: empty_slot_def)

lemma ctor_wf_table:
  "0 < B \<Longrightarrow> 0 < n \<Longrightarrow> table_wf B (LinearProbeHashTable_ctor B n h)"
  by (simp add: table_wf_def LinearProbeHashTable_ctor_def NumBlocks_def blocks_wf_def list_all_iff)

lemma Resize_preserves_distinct_pairs:
  assumes "table_wf B t" and "distinct (live_pairs (concat (blocks t)))"
  shows "\<exists>t'. Resize B t (GetSize B t) = Some t' \<and> readable_pairs t' = readable_pairs t
            \<and> NumBlocks t' = 2 * NumBlocks t \<and> table_wf B t'"
proof -
  let ?N = "NumBlocks t"
  from assms(1) have B0: "0 < B" and N0: "0 < ?N" and wf: "blocks_wf B (blocks t)"
    by (simp_all add: table_wf_def)
  have n: "2 * GetSize B t div B + (if 0 < (2 * GetSize B t) mod B then 1 else 0) = 2 * ?N"
    using B0 by (simp add: GetSize_def)
  let ?new = "LinearProbeHashTable_ctor B (2 * ?N) (hash_fn t)"
  have nwf: "table_wf B ?new" using B0 N0 by (intro ctor_wf_table) simp_all
  have nb: "NumBlocks ?new = 2 * ?N" by (simp add: LinearProbeHashTable_ctor_def NumBlocks_def)
  have ne: "readable_pairs ?new = {#}"
    by (simp add: readable_pairs_def LinearProbeHashTable_ctor_def ctor_empty)
  have len: "length (concat (blocks t)) = ?N * B"
    using length_concat_blocks [OF wf] by (simp add: NumBlocks_def)
  have "length (filter readable (concat (blocks t))) \<le> ?N * B"
    using length_filter_le [of readable "concat (blocks t)"] len by simp
  then have a2: "size (readable_pairs ?new) + length (filter readable (concat (blocks t)))
                   \<le> NumBlocks ?new * B"
    using ne nb by simp
  have a4: "\<forall>p \<in> set (live_pairs (concat (blocks t))). p \<notin># readable_pairs ?new"
    using ne by simp
  from Resize_move_all [OF nwf a2 assms(2) a4] obtain t' where
    t': "Resize_move B (concat (blocks t)) ?new = Some t'" "table_wf B t'" "NumBlocks t' = NumBlocks ?new"
    "readable_pairs t' = readable_pairs ?new + mset (live_pairs (concat (blocks t)))" by blast
  have "Resize B t (GetSize B t) = Some t'"
    using t'(1) B0 by (simp add: Resize_def n block_slots_wf [OF wf])
  with t' ne nb show ?thesis by (simp add: readable_pairs_live)
qed

text \<open>
  C5, evaluated where the code departs from it. \<open>duplicate_table\<close> is reached by
  \<open>Insert(1, 10)\<close>, \<open>Insert(1, 20)\<close>, \<open>Remove(1, 10)\<close>, \<open>Insert(1, 20)\<close> and stores the pair
  (1, 20) in two readable slots. \<open>Resize(GetSize())\<close> moves the first copy into the new table
  and drops the second, which the internal insert rejects as a duplicate: two readable pairs
  before, one after.
\<close>

theorem Resize_drops_duplicate_pair:
  "table_calls 4 (LinearProbeHashTable_ctor 4 1 nat)
      [CallInsert 1 10, CallInsert 1 20, CallRemove 1 10, CallInsert 1 20] = Some duplicate_table
   \<and> readable_pairs duplicate_table = {#(1, 20), (1, 20)#}
   \<and> (\<exists>t. Resize 4 duplicate_table (GetSize 4 duplicate_table) = Some t
          \<and> readable_pairs t = {#(1, 20)#})"
  using duplicate_table_reached
  by (simp add: table_eval duplicate_table_def list_update_numeral replicate_4 replicate_2 upt_4)

text \<open>
  C6, evaluated where the code departs from it. \<open>tombstone_table\<close> is reached by
  \<open>Insert(1, 10)\<close>, \<open>Insert(1, 20)\<close>, \<open>Remove(1, 10)\<close>; the pair (1, 20) is stored in a
  readable slot and \<open>GetValue(1)\<close> yields one 20. \<open>Insert(1, 20)\<close> claims the tombstone in
  front of the stored pair before it meets that pair: it returns \<open>true\<close>, changes the
  table, and \<open>GetValue(1)\<close> then yields 20 twice.
\<close>

theorem Insert_duplicate_after_tombstone:
  "table_calls 4 (LinearProbeHashTable_ctor 4 1 nat)
      [CallInsert 1 10, CallInsert 1 20, CallRemove 1 10] = Some tombstone_table
   \<and> (1, 20) \<in># readable_pairs tombstone_table
   \<and> GetValue 4 tombstone_table 1 [] = Some (True, [20])
   \<and> Insert 4 tombstone_table 1 20 = Some (True, duplicate_table)
   \<and> duplicate_table \<noteq> tombstone_table
   \<and> GetValue 4 duplicate_table 1 [] = Some (True, [20, 20])"
  using tombstone_table_reached
  by (simp add: table_eval tombstone_table_def duplicate_table_def list_update_numeral)

end
